theory Spec2Isabelle
  imports Main "HOL-Library.Word"
begin

section \<open>The linear IR\<close>

text \<open>
  The inliner of \<^verbatim>\<open>Jit/codegen/inliner.cpp\<close> works on the LIR of \<^verbatim>\<open>Jit/lir/lir.h\<close>:
  a Function owns an ordered vector of BasicBlock pointers, a BasicBlock owns a list of
  Instructions and keeps vectors of predecessor and successor block pointers, and an
  Instruction has an opcode, input operands and one output operand.

  Pointers to blocks are addresses \<open>bid\<close>; the block an address holds is read through
  \<open>block_at\<close>, so comparing two block pointers is comparing two addresses. Instructions
  are owned by the list of their block (a \<^verbatim>\<open>std::list<std::unique_ptr<Instruction>>\<close>) and
  live in it by value; the address of an instruction is its field \<open>iid\<close>, which is what a
  linked operand points at. An instruction has exactly one output operand, so the address
  of that output operand is represented by the \<open>iid\<close> of its instruction.
\<close>

type_synonym bid = nat
type_synonym iid = nat

datatype opcode = kLoadArg | kReturn | kCall | kMove | kNop | kPhi | kOther nat

text \<open>
  Modelled from the spec: the operand classes of \<^verbatim>\<open>Jit/lir/operand.h\<close> are not among the
  sources. The spec's data model gives an operand as a tagged union over an immediate
  constant, a virtual register, a linked reference to the defining instruction and an
  indirect memory reference with a base and an optional index; a label operand names the
  incoming block of a phi input.
\<close>

datatype operand =
    Imm "64 word"
  | VReg nat
  | Linked iid
  | Ind operand "operand option"
  | Label bid

fun isImm :: "operand \<Rightarrow> bool" where
  "isImm (Imm c) = True"
| "isImm x = False"

fun isLinked :: "operand \<Rightarrow> bool" where
  "isLinked (Linked i) = True"
| "isLinked x = False"

fun isInd :: "operand \<Rightarrow> bool" where
  "isInd (Ind b i) = True"
| "isInd x = False"

text \<open>
  Modelled from the spec: \<^verbatim>\<open>isVreg\<close> holds of a virtual register and of a linked
  reference, which reads the virtual register its defining instruction writes.
\<close>

fun isVreg :: "operand \<Rightarrow> bool" where
  "isVreg (VReg n) = True"
| "isVreg (Linked i) = True"
| "isVreg x = False"

datatype output_kind = OutNone | OutVReg

record instr =
  iid :: iid
  opcode :: opcode
  inputs :: "operand list"
  output_operand :: output_kind

definition isLoadArg :: "instr \<Rightarrow> bool" where
  "isLoadArg i = (opcode i = kLoadArg)"

definition isReturn :: "instr \<Rightarrow> bool" where
  "isReturn i = (opcode i = kReturn)"

definition getNumInputs :: "instr \<Rightarrow> nat" where
  "getNumInputs i = length (inputs i)"

record basicblock =
  instructions :: "instr list"
  predecessors :: "bid list"
  successors :: "bid list"

record lir_function =
  basicblocks :: "bid list"
  block_at :: "bid \<Rightarrow> basicblock"

text \<open>
  Modelled from the spec: \<^verbatim>\<open>Function::getEntryBlock\<close> is declared in \<^verbatim>\<open>Jit/lir/lir.h\<close>, not
  among the sources. The entry block is the first stored block (the spec, 4.3 step 3,
  names the first copied block the callee entry); a function with no block has none (a
  null pointer).
\<close>

definition getEntryBlock :: "lir_function \<Rightarrow> bid option" where
  "getEntryBlock f = (case basicblocks f of [] \<Rightarrow> None | b # bs \<Rightarrow> Some b)"

section \<open>The legality checker\<close>

text \<open>
  The inner loop of \<^verbatim>\<open>checkEntryExitReturn\<close> over the instructions of one block: a return
  must be the last instruction of the block (nothing follows it in the list), and the
  block must have exactly one successor, the exit block.
\<close>

fun checkReturns :: "bid \<Rightarrow> basicblock \<Rightarrow> instr list \<Rightarrow> bool" where
  "checkReturns exit_block bb [] = True"
| "checkReturns exit_block bb (i # rest) =
     (if isReturn i \<and>
         (rest \<noteq> [] \<or> length (successors bb) \<noteq> 1 \<or> successors bb ! 0 \<noteq> exit_block)
      then False
      else checkReturns exit_block bb rest)"

text \<open>The loop of \<^verbatim>\<open>checkEntryExitReturn\<close> over the blocks of the callee.\<close>

fun checkBlocks :: "lir_function \<Rightarrow> bid \<Rightarrow> bid \<Rightarrow> bid list \<Rightarrow> bool" where
  "checkBlocks callee entry_block exit_block [] = True"
| "checkBlocks callee entry_block exit_block (bb # rest) =
     (if predecessors (block_at callee bb) = [] \<and> bb \<noteq> entry_block then False
      else if successors (block_at callee bb) = [] \<and> bb \<noteq> exit_block then False
      else if \<not> checkReturns exit_block (block_at callee bb)
                  (instructions (block_at callee bb)) then False
      else checkBlocks callee entry_block exit_block rest)"

definition checkEntryExitReturn :: "lir_function \<Rightarrow> bool" where
  "checkEntryExitReturn callee =
     (if basicblocks callee = [] then False
      else case getEntryBlock callee of
        None \<Rightarrow> False
      | Some entry_block \<Rightarrow>
          if predecessors (block_at callee entry_block) \<noteq> [] then False
          else let exit_block = last (basicblocks callee) in
            if successors (block_at callee exit_block) \<noteq> [] then False
            else if \<not> checkBlocks callee entry_block exit_block (basicblocks callee)
              then False
            else if instructions (block_at callee exit_block) \<noteq> [] then False
            else True)"

text \<open>
  \<^verbatim>\<open>checkArguments\<close> walks the inputs of the call after the callee address and appends
  each accepted one to \<^verbatim>\<open>arguments_\<close>; the operands appended before a rejected one stay.
\<close>

fun checkArgumentsLoop :: "operand list \<Rightarrow> operand list \<Rightarrow> bool \<times> operand list" where
  "checkArgumentsLoop [] args = (True, args)"
| "checkArgumentsLoop (x # xs) args =
     (if \<not> isImm x \<and> \<not> isVreg x then (False, args)
      else checkArgumentsLoop xs (args @ [x]))"

definition checkArguments :: "instr \<Rightarrow> operand list \<Rightarrow> bool \<times> operand list" where
  "checkArguments call_instr args = checkArgumentsLoop (drop 1 (inputs call_instr)) args"

text \<open>
  The inner loop of \<^verbatim>\<open>checkLoadArg\<close>: \<open>None\<close> is the early \<^verbatim>\<open>return false\<close>, \<open>Some flag\<close>
  the value of \<^verbatim>\<open>check_load_arg\<close> after the block. The index of a parameter load is an
  unsigned 64-bit constant, compared with the unsigned \<open>numInputs\<close>.
\<close>

fun checkLoadArgInstrs :: "nat \<Rightarrow> bool \<Rightarrow> instr list \<Rightarrow> bool option" where
  "checkLoadArgInstrs numInputs check_load_arg [] = Some check_load_arg"
| "checkLoadArgInstrs numInputs check_load_arg (i # rest) =
     (if check_load_arg then
        (if isLoadArg i then
           (if getNumInputs i < 1 then None
            else case inputs i ! 0 of
              Imm c \<Rightarrow>
                if unat c \<ge> numInputs then None
                else checkLoadArgInstrs numInputs check_load_arg rest
            | _ \<Rightarrow> None)
         else checkLoadArgInstrs numInputs False rest)
      else
        (if isLoadArg i then None
         else checkLoadArgInstrs numInputs check_load_arg rest))"

fun checkLoadArgBlocks :: "lir_function \<Rightarrow> nat \<Rightarrow> bool \<Rightarrow> bid list \<Rightarrow> bool" where
  "checkLoadArgBlocks callee numInputs check_load_arg [] = True"
| "checkLoadArgBlocks callee numInputs check_load_arg (bb # rest) =
     (case checkLoadArgInstrs numInputs check_load_arg (instructions (block_at callee bb)) of
        None \<Rightarrow> False
      | Some flag \<Rightarrow> checkLoadArgBlocks callee numInputs flag rest)"

text \<open>
  \<^verbatim>\<open>size_t numInputs = call_instr_->getNumInputs() - 1\<close> is an unsigned 64-bit subtraction:
  on a call with no input at all it wraps to \<open>2 ^ 64 - 1\<close>.
\<close>

definition checkLoadArg :: "instr \<Rightarrow> lir_function \<Rightarrow> bool" where
  "checkLoadArg call_instr callee =
     checkLoadArgBlocks callee ((getNumInputs call_instr + 2 ^ 64 - 1) mod 2 ^ 64) True
       (basicblocks callee)"

text \<open>
  \<^verbatim>\<open>isInlineable\<close> runs the three checks in order and stops at the first that fails; its
  second component is \<^verbatim>\<open>arguments_\<close> afterwards.
\<close>

definition isInlineable :: "instr \<Rightarrow> lir_function \<Rightarrow> operand list \<Rightarrow> bool \<times> operand list" where
  "isInlineable call_instr callee args =
     (if \<not> checkEntryExitReturn callee then (False, args)
      else case checkArguments call_instr args of
        (ok, args') \<Rightarrow>
          if \<not> ok then (False, args')
          else if \<not> checkLoadArg call_instr callee then (False, args')
          else (True, args'))"

text \<open>The instructions of a function in stored order: block after block, as both loops of
  \<^verbatim>\<open>checkLoadArg\<close> visit them.\<close>

definition instructions_in_order :: "lir_function \<Rightarrow> instr list" where
  "instructions_in_order f = concat (map (\<lambda>b. instructions (block_at f b)) (basicblocks f))"


section \<open>The inliner\<close>

text \<open>
  How a run of the pass can end without returning: a failed \<^verbatim>\<open>JIT_CHECK\<close> (the process
  aborts), a failed \<^verbatim>\<open>JIT_DCHECK\<close> (the debug build aborts; what follows it relies on the
  checked condition), \<^verbatim>\<open>std::out_of_range\<close> thrown by \<^verbatim>\<open>vector::at\<close>, and the use of a
  pointer that points at nothing the function owns.
\<close>

datatype failure = JitCheckFailed | JitDCheckFailed | OutOfRange | InvalidPointer

text \<open>
  The collaborators of \<^verbatim>\<open>findFunction\<close> and \<^verbatim>\<open>parseFunction\<close>: \<^verbatim>\<open>dladdr\<close> gives the symbol
  name of an address (\<open>None\<close> when it returns 0 or the name is null), \<open>lir_text\<close> the content
  of the file \<^verbatim>\<open>Jit/lir/c_helper_translations/<name>.lir\<close> (\<open>None\<close> when the stream is not
  good), \<open>parse_lir\<close> the result of \<^verbatim>\<open>Parser::parse\<close> (\<open>None\<close> for a null pointer).
\<close>

record environment =
  dladdr :: "64 word \<Rightarrow> string option"
  lir_text :: "string \<Rightarrow> string option"
  parse_lir :: "string \<Rightarrow> lir_function option"

text \<open>
  The state the pass works on: the caller's function, the fields of \<^verbatim>\<open>LIRInliner\<close> and the
  static map \<^verbatim>\<open>name_to_function\<close> of \<^verbatim>\<open>parseFunction\<close>. The pointer \<^verbatim>\<open>call_instr_\<close> is the
  position \<open>call_idx\<close> in the instruction list of the block \<open>call_bb\<close>, which is what
  \<^verbatim>\<open>call_instr_->basicblock()\<close> returns. A name the map holds is mapped to the stored
  \<^verbatim>\<open>unique_ptr\<close>, which is null (\<open>None\<close>) when the parser returned null.
\<close>

record inliner =
  caller :: lir_function
  call_bb :: bid
  call_idx :: nat
  callee_start :: nat
  callee_end :: nat
  arguments :: "operand list"
  name_to_function :: "string \<Rightarrow> lir_function option option"

definition getCallInstr :: "inliner \<Rightarrow> instr option" where
  "getCallInstr st =
     (let is = instructions (block_at (caller st) (call_bb st))
      in if call_idx st < length is then Some (is ! call_idx st) else None)"

subsection \<open>Resolving the callee\<close>

definition parseFunction ::
  "environment \<Rightarrow> (string \<Rightarrow> lir_function option option) \<Rightarrow> string
     \<Rightarrow> lir_function option \<times> (string \<Rightarrow> lir_function option option)" where
  "parseFunction env cache name =
     (case cache name of
        Some f \<Rightarrow> (f, cache)
      | None \<Rightarrow>
          (case lir_text env name of
             None \<Rightarrow> (None, cache)
           | Some buffer \<Rightarrow>
               let parsed_func = parse_lir env buffer
               in (parsed_func, cache(name \<mapsto> parsed_func))))"

definition findFunction ::
  "environment \<Rightarrow> instr \<Rightarrow> (string \<Rightarrow> lir_function option option)
     \<Rightarrow> lir_function option \<times> (string \<Rightarrow> lir_function option option)" where
  "findFunction env call_instr cache =
     (if getNumInputs call_instr < 1 then (None, cache)
      else case inputs call_instr ! 0 of
        Imm addr \<Rightarrow>
          (case dladdr env addr of
             None \<Rightarrow> (None, cache)
           | Some name \<Rightarrow> parseFunction env cache name)
      | _ \<Rightarrow> (None, cache))"

subsection \<open>Splicing the callee into the caller\<close>

text \<open>Addresses no block and no instruction of a function uses yet.\<close>

definition fresh_bid :: "lir_function \<Rightarrow> bid" where
  "fresh_bid f = Suc (fold max (basicblocks f) 0)"

definition fresh_iid :: "lir_function \<Rightarrow> iid" where
  "fresh_iid f = Suc (fold max (map iid (instructions_in_order f)) 0)"

fun insert_after :: "'a \<Rightarrow> 'a list \<Rightarrow> 'a list \<Rightarrow> 'a list" where
  "insert_after a new [] = []"
| "insert_after a new (x # xs) =
     (if x = a then x # new @ xs else x # insert_after a new xs)"

definition index_of :: "'a \<Rightarrow> 'a list \<Rightarrow> nat" where
  "index_of a xs = length (takeWhile (\<lambda>x. x \<noteq> a) xs)"

text \<open>
  Modelled from the spec: \<^verbatim>\<open>BasicBlock::splitBefore\<close> is not among the sources. The spec
  (4.3, step 1): everything before the call stays in block A; the call instruction and
  everything after it move into a new block B; the single successor of A becomes B. B is
  stored right after A and takes over the successors of A, whose predecessor lists name B
  in place of A.
\<close>

definition splitBefore :: "lir_function \<Rightarrow> bid \<Rightarrow> nat \<Rightarrow> failure + (lir_function \<times> bid)" where
  "splitBefore f a idx =
     (if a \<notin> set (basicblocks f) then Inl InvalidPointer
      else
        let b = fresh_bid f;
            blk = block_at f a;
            first = blk\<lparr>instructions := take idx (instructions blk), successors := [b]\<rparr>;
            second = \<lparr>instructions = drop idx (instructions blk), predecessors = [a],
                      successors = successors blk\<rparr>;
            heap = (\<lambda>x. if x \<in> set (successors blk)
                          then (block_at f x)\<lparr>predecessors :=
                                  map (\<lambda>p. if p = a then b else p) (predecessors (block_at f x))\<rparr>
                          else block_at f x)
        in Inr (\<lparr>basicblocks = insert_after a [b] (basicblocks f),
                 block_at = heap(a := first, b := second)\<rparr>, b))"

text \<open>
  Modelled from the spec: \<^verbatim>\<open>Function::copyFrom\<close> is not among the sources. The spec (4.3,
  steps 2 to 4): every block of the callee is deep-copied, in its original order, into
  the caller's block list between A and B, with the callee's internal predecessor and
  successor structure and its instructions (immediates copied by value, linked references
  re-targeted within the copy); A's successor becomes the copied entry block and the copied
  exit block's successor becomes B; the result is the index range of the copied blocks.
  The copy of the block at address \<open>x\<close> stands at address \<open>base + x\<close>, and the copy of the
  instruction at address \<open>i\<close> at \<open>ibase + i\<close>.
\<close>

fun copy_operand :: "bid \<Rightarrow> iid \<Rightarrow> operand \<Rightarrow> operand" where
  "copy_operand base ibase (Imm c) = Imm c"
| "copy_operand base ibase (VReg n) = VReg n"
| "copy_operand base ibase (Linked i) = Linked (ibase + i)"
| "copy_operand base ibase (Ind b None) = Ind (copy_operand base ibase b) None"
| "copy_operand base ibase (Ind b (Some ix)) =
     Ind (copy_operand base ibase b) (Some (copy_operand base ibase ix))"
| "copy_operand base ibase (Label l) = Label (base + l)"

definition copy_instr :: "bid \<Rightarrow> iid \<Rightarrow> instr \<Rightarrow> instr" where
  "copy_instr base ibase i =
     i\<lparr>iid := ibase + iid i, inputs := map (copy_operand base ibase) (inputs i)\<rparr>"

definition copy_block :: "bid \<Rightarrow> iid \<Rightarrow> basicblock \<Rightarrow> basicblock" where
  "copy_block base ibase blk =
     \<lparr>instructions = map (copy_instr base ibase) (instructions blk),
      predecessors = map (\<lambda>p. base + p) (predecessors blk),
      successors = map (\<lambda>s. base + s) (successors blk)\<rparr>"

definition copyFrom ::
  "lir_function \<Rightarrow> lir_function \<Rightarrow> bid \<Rightarrow> bid \<Rightarrow> failure + (lir_function \<times> nat \<times> nat)" where
  "copyFrom f callee prev_bb next_bb =
     (if basicblocks callee = [] \<or> prev_bb \<notin> set (basicblocks f) then Inl InvalidPointer
      else
        let base = fresh_bid f;
            ibase = fresh_iid f;
            entry_copy = base + hd (basicblocks callee);
            exit_copy = base + last (basicblocks callee);
            h1 = (\<lambda>x. if base \<le> x then copy_block base ibase (block_at callee (x - base))
                        else block_at f x);
            h2 = h1(prev_bb := (h1 prev_bb)\<lparr>successors := [entry_copy]\<rparr>);
            h3 = h2(entry_copy := (h2 entry_copy)\<lparr>predecessors :=
                      predecessors (h2 entry_copy) @ [prev_bb]\<rparr>);
            h4 = h3(exit_copy := (h3 exit_copy)\<lparr>successors :=
                      successors (h3 exit_copy) @ [next_bb]\<rparr>);
            h5 = h4(next_bb := (h4 next_bb)\<lparr>predecessors := [exit_copy]\<rparr>);
            begin_bb = Suc (index_of prev_bb (basicblocks f))
        in Inr (\<lparr>basicblocks =
                   insert_after prev_bb (map (\<lambda>x. base + x) (basicblocks callee)) (basicblocks f),
                 block_at = h5\<rparr>,
                begin_bb, begin_bb + length (basicblocks callee)))"

subsection \<open>Resolving the arguments\<close>

text \<open>
  \<^verbatim>\<open>vreg_map\<close> maps the output operand of an erased parameter load, named by the address of
  its instruction, to the instruction that the linked argument of the call points at.
  \<^verbatim>\<open>unordered_map::emplace\<close> keeps the entry of a key that is already present.
\<close>

type_synonym vreg_map = "iid \<Rightarrow> iid option"

text \<open>
  \<^verbatim>\<open>resolveLoadArg\<close> on one parameter load: the new map, and the instruction as it stays in
  the block (\<open>Some\<close>, converted into a move) or \<open>None\<close> when it is erased.
\<close>

definition resolveLoadArg ::
  "vreg_map \<Rightarrow> operand list \<Rightarrow> instr \<Rightarrow> failure + (vreg_map \<times> instr option)" where
  "resolveLoadArg vmap args i =
     (if \<not> (getNumInputs i > 0 \<and> isImm (inputs i ! 0)) then Inl JitDCheckFailed
      else case inputs i ! 0 of
        Imm argument \<Rightarrow>
          if unat argument \<ge> length args then Inl OutOfRange
          else
            (case args ! unat argument of
               Imm c \<Rightarrow>
                 Inr (vmap, Some (i\<lparr>opcode := kMove, inputs := (inputs i)[0 := Imm c]\<rparr>))
             | Linked d \<Rightarrow>
                 Inr (if vmap (iid i) = None then vmap(iid i \<mapsto> d) else vmap, None)
             | _ \<Rightarrow> Inl JitDCheckFailed)
      | _ \<Rightarrow> Inl JitDCheckFailed)"

text \<open>\<^verbatim>\<open>setLinkedOperand\<close>: a linked operand whose definition is in the map is re-targeted.\<close>

fun setLinkedOperand :: "vreg_map \<Rightarrow> operand \<Rightarrow> operand" where
  "setLinkedOperand vmap (Linked j) =
     (case vmap j of None \<Rightarrow> Linked j | Some new_def \<Rightarrow> Linked new_def)"
| "setLinkedOperand vmap x = x"

fun resolveInput :: "vreg_map \<Rightarrow> operand \<Rightarrow> operand" where
  "resolveInput vmap (Linked j) = setLinkedOperand vmap (Linked j)"
| "resolveInput vmap (Ind base index) =
     Ind (if isLinked base then setLinkedOperand vmap base else base)
         (case index of
            None \<Rightarrow> None
          | Some ix \<Rightarrow> Some (if isLinked ix then setLinkedOperand vmap ix else ix))"
| "resolveInput vmap x = x"

definition resolveLinkedArgumentsUses :: "vreg_map \<Rightarrow> instr \<Rightarrow> instr" where
  "resolveLinkedArgumentsUses vmap i = i\<lparr>inputs := map (resolveInput vmap) (inputs i)\<rparr>"

text \<open>
  The \<^verbatim>\<open>while\<close> loop of \<^verbatim>\<open>resolveArguments\<close> over the instructions of one block: a converted
  parameter load and every other instruction stay, an erased parameter load leaves the
  list, and the loop goes on with the instruction after it.
\<close>

fun resolveInstrs ::
  "vreg_map \<Rightarrow> operand list \<Rightarrow> instr list \<Rightarrow> failure + (vreg_map \<times> instr list)" where
  "resolveInstrs vmap args [] = Inr (vmap, [])"
| "resolveInstrs vmap args (i # rest) =
     (if isLoadArg i then
        (case resolveLoadArg vmap args i of
           Inl e \<Rightarrow> Inl e
         | Inr (vmap', kept) \<Rightarrow>
             (case resolveInstrs vmap' args rest of
                Inl e \<Rightarrow> Inl e
              | Inr (vmap'', rest') \<Rightarrow>
                  Inr (vmap'', (case kept of None \<Rightarrow> rest' | Some i' \<Rightarrow> i' # rest'))))
      else
        (case resolveInstrs vmap args rest of
           Inl e \<Rightarrow> Inl e
         | Inr (vmap'', rest') \<Rightarrow> Inr (vmap'', resolveLinkedArgumentsUses vmap i # rest')))"

definition setInstructions :: "lir_function \<Rightarrow> bid \<Rightarrow> instr list \<Rightarrow> lir_function" where
  "setInstructions f bb is =
     f\<lparr>block_at := (block_at f)(bb := (block_at f bb)\<lparr>instructions := is\<rparr>)\<rparr>"

text \<open>The \<^verbatim>\<open>for\<close> loop of \<^verbatim>\<open>resolveArguments\<close> over the block indices of the range.\<close>

fun resolveBlocks ::
  "operand list \<Rightarrow> nat list \<Rightarrow> vreg_map \<Rightarrow> lir_function \<Rightarrow> failure + (vreg_map \<times> lir_function)"
  where
  "resolveBlocks args [] vmap f = Inr (vmap, f)"
| "resolveBlocks args (i # is) vmap f =
     (if i \<ge> length (basicblocks f) then Inl OutOfRange
      else
        let bb = basicblocks f ! i in
        case resolveInstrs vmap args (instructions (block_at f bb)) of
          Inl e \<Rightarrow> Inl e
        | Inr (vmap', instrs') \<Rightarrow> resolveBlocks args is vmap' (setInstructions f bb instrs'))"

definition resolveArguments :: "inliner \<Rightarrow> failure + inliner" where
  "resolveArguments st =
     (case resolveBlocks (arguments st) [callee_start st ..< callee_end st] Map.empty
             (caller st) of
        Inl e \<Rightarrow> Inl e
      | Inr (vmap, f) \<Rightarrow> Inr (st\<lparr>caller := f\<rparr>))"

subsection \<open>Merging the return values\<close>

text \<open>
  Modelled from the spec: \<^verbatim>\<open>BasicBlock::getLastInstr\<close>, \<^verbatim>\<open>removeInstr\<close> and \<^verbatim>\<open>allocateInstr\<close>
  are declared in \<^verbatim>\<open>Jit/lir/block.h\<close>, not among the sources. A block owns an ordered list
  of instructions (spec, section 3); \<^verbatim>\<open>getLastInstr\<close> is null on an empty block, as the
  test in \<^verbatim>\<open>resolveReturnValue\<close> expects. \<^verbatim>\<open>allocateInstr\<close> appends the new instruction:
  \<^verbatim>\<open>block_builder.cpp\<close> fills a block with it instruction after instruction, and
  \<^verbatim>\<open>resolveReturnValue\<close> removes the phi instruction it allocated as the last instruction
  of the epilogue. The epilogue of an accepted callee is empty, so its end is also its
  start, where the spec (4.5, step 2) places the merge instruction.
\<close>

definition getLastInstr :: "lir_function \<Rightarrow> bid \<Rightarrow> instr option" where
  "getLastInstr f bb =
     (case instructions (block_at f bb) of [] \<Rightarrow> None | x # xs \<Rightarrow> Some (last (x # xs)))"

definition removeLastInstr :: "lir_function \<Rightarrow> bid \<Rightarrow> lir_function" where
  "removeLastInstr f bb = setInstructions f bb (butlast (instructions (block_at f bb)))"


definition allocateInstr :: "lir_function \<Rightarrow> bid \<Rightarrow> instr \<Rightarrow> lir_function" where
  "allocateInstr f bb i = setInstructions f bb (instructions (block_at f bb) @ [i])"

text \<open>
  \<^verbatim>\<open>phi_instr\<close> is the instruction that \<^verbatim>\<open>allocateInstr\<close> appended to the epilogue, the last
  one of that block; an operand is appended to its inputs.
\<close>

definition appendPhiInput :: "lir_function \<Rightarrow> bid \<Rightarrow> operand \<Rightarrow> lir_function" where
  "appendPhiInput f epilogue opnd =
     (case instructions (block_at f epilogue) of
        [] \<Rightarrow> f
      | x # xs \<Rightarrow>
          setInstructions f epilogue
            (butlast (x # xs) @ [(last (x # xs))\<lparr>inputs := inputs (last (x # xs)) @ [opnd]\<rparr>]))"

text \<open>The loop of \<^verbatim>\<open>resolveReturnValue\<close> over the predecessors of the epilogue.\<close>

fun mergeReturns :: "bid \<Rightarrow> bid list \<Rightarrow> lir_function \<Rightarrow> failure + lir_function" where
  "mergeReturns epilogue [] f = Inr f"
| "mergeReturns epilogue (pred # rest) f =
     (case getLastInstr f pred of
        None \<Rightarrow> mergeReturns epilogue rest f
      | Some lastInstr \<Rightarrow>
          if isReturn lastInstr then
            (let f1 = appendPhiInput f epilogue (Label pred) in
             if \<not> getNumInputs lastInstr > 0 then Inl JitCheckFailed
             else
               let f2 = appendPhiInput f1 epilogue (inputs lastInstr ! 0);
                   f3 = removeLastInstr f2 pred
               in mergeReturns epilogue rest f3)
          else mergeReturns epilogue rest f)"

definition updateCallInstr :: "inliner \<Rightarrow> lir_function \<Rightarrow> (instr \<Rightarrow> instr) \<Rightarrow> failure + inliner"
  where
  "updateCallInstr st f g =
     (let is = instructions (block_at f (call_bb st)) in
      if call_idx st < length is
      then Inr (st\<lparr>caller := setInstructions f (call_bb st)
                                ((is)[call_idx st := g (is ! call_idx st)])\<rparr>)
      else Inl InvalidPointer)"

definition resolveReturnValue :: "inliner \<Rightarrow> failure + inliner" where
  "resolveReturnValue st =
     (let f = caller st in
      if callee_end st = 0 \<or> callee_end st - 1 \<ge> length (basicblocks f) then Inl OutOfRange
      else
        let epilogue = basicblocks f ! (callee_end st - 1);
            f1 = allocateInstr f epilogue
                   \<lparr>iid = fresh_iid f, opcode = kPhi, inputs = [], output_operand = OutVReg\<rparr>
        in case mergeReturns epilogue (predecessors (block_at f1 epilogue)) f1 of
             Inl e \<Rightarrow> Inl e
           | Inr f2 \<Rightarrow>
               (case getLastInstr f2 epilogue of
                  None \<Rightarrow> Inl InvalidPointer
                | Some phi_instr \<Rightarrow>
                    if getNumInputs phi_instr = 0
                    then updateCallInstr st (removeLastInstr f2 epilogue) (\<lambda>c. c\<lparr>opcode := kNop\<rparr>)
                    else updateCallInstr st f2
                           (\<lambda>c. c\<lparr>opcode := kMove, inputs := [Linked (iid phi_instr)]\<rparr>)))"

subsection \<open>The pass\<close>

definition inlineCall :: "environment \<Rightarrow> inliner \<Rightarrow> failure + (bool \<times> inliner)" where
  "inlineCall env st =
     (case getCallInstr st of
        None \<Rightarrow> Inl InvalidPointer
      | Some call_instr \<Rightarrow>
          (case findFunction env call_instr (name_to_function st) of
             (found, cache) \<Rightarrow>
               let st1 = st\<lparr>name_to_function := cache\<rparr> in
               (case found of
                  None \<Rightarrow> Inr (False, st1)
                | Some callee \<Rightarrow>
                    (case isInlineable call_instr callee (arguments st1) of
                       (ok, args) \<Rightarrow>
                         let st2 = st1\<lparr>arguments := args\<rparr> in
                         if \<not> ok then Inr (False, st2)
                         else
                           (case splitBefore (caller st2) (call_bb st2) (call_idx st2) of
                              Inl e \<Rightarrow> Inl e
                            | Inr (f1, block2) \<Rightarrow>
                                (case copyFrom f1 callee (call_bb st2) block2 of
                                   Inl e \<Rightarrow> Inl e
                                 | Inr (f2, begin_bb, end_bb) \<Rightarrow>
                                     let st3 = st2\<lparr>caller := f2, call_bb := block2, call_idx := 0,
                                                   callee_start := begin_bb,
                                                   callee_end := end_bb\<rparr>
                                     in (case resolveArguments st3 of
                                           Inl e \<Rightarrow> Inl e
                                         | Inr st4 \<Rightarrow>
                                             (case resolveReturnValue st4 of
                                                Inl e \<Rightarrow> Inl e
                                              | Inr st5 \<Rightarrow> Inr (True, st5)))))))))"


section \<open>Properties of functions and of instruction lists\<close>

text \<open>Every return of the list is its last instruction.\<close>

definition returns_last :: "instr list \<Rightarrow> bool" where
  "returns_last xs = (\<forall>x \<in> set (butlast xs). \<not> isReturn x)"

text \<open>A parameter load that \<^verbatim>\<open>resolveLoadArg\<close> can bind: its first input is an immediate
  index into the arguments.\<close>

definition bindable :: "operand list \<Rightarrow> instr \<Rightarrow> bool" where
  "bindable args i =
     (inputs i \<noteq> [] \<and> (\<exists>c. inputs i ! 0 = Imm c \<and> unat c < length args))"

text \<open>The last instruction of the block is a return.\<close>

definition ends_in_return :: "lir_function \<Rightarrow> bid \<Rightarrow> bool" where
  "ends_in_return f bb = (case getLastInstr f bb of None \<Rightarrow> False | Some i \<Rightarrow> isReturn i)"

text \<open>
  The invariant of the spec's data model (section 3) on the blocks a function stores:
  A is a successor of B exactly when B is a predecessor of A, and both are stored.
\<close>

definition consistent :: "lir_function \<Rightarrow> bool" where
  "consistent f =
     (\<forall>b \<in> set (basicblocks f).
        (\<forall>s \<in> set (successors (block_at f b)).
           s \<in> set (basicblocks f) \<and> b \<in> set (predecessors (block_at f s))) \<and>
        (\<forall>p \<in> set (predecessors (block_at f b)).
           p \<in> set (basicblocks f) \<and> b \<in> set (successors (block_at f p))))"

text \<open>The blocks of the transplanted range \<^verbatim>\<open>[callee_start_, callee_end_)\<close>.\<close>

definition transplanted :: "inliner \<Rightarrow> bid list" where
  "transplanted st =
     map (\<lambda>k. basicblocks (caller st) ! k) [callee_start st ..< callee_end st]"

text \<open>If the first list ends in a return without input operand, so does the second.\<close>

definition keeps_bare_return :: "instr list \<Rightarrow> instr list \<Rightarrow> bool" where
  "keeps_bare_return xs ys =
     (xs \<noteq> [] \<and> isReturn (last xs) \<and> inputs (last xs) = [] \<longrightarrow>
      ys \<noteq> [] \<and> isReturn (last ys) \<and> inputs (last ys) = [])"

text \<open>
  The elements of a list in the order in which they occur for the first time. The loop of
  \<^verbatim>\<open>resolveReturnValue\<close> meets a predecessor that is listed twice a second time, after it
  has removed its return.
\<close>

primrec first_occurrences :: "'a list \<Rightarrow> 'a list" where
  "first_occurrences [] = []"
| "first_occurrences (x # xs) = x # filter (\<lambda>y. y \<noteq> x) (first_occurrences xs)"

text \<open>
  The argument resolver as the spec words it (4.4), on the instructions of one block: a
  parameter load whose actual argument is an immediate constant is converted in place into
  a move of that constant, a parameter load whose actual argument is anything else (a
  linked reference) is deleted, and every other instruction stays. The retargeting of
  linked operands is left to \<open>retargeted\<close> below.
\<close>

fun spec_bind_arguments :: "operand list \<Rightarrow> instr list \<Rightarrow> instr list" where
  "spec_bind_arguments args [] = []"
| "spec_bind_arguments args (i # rest) =
     (if isLoadArg i then
        (case inputs i of
           Imm index # others \<Rightarrow>
             (if unat index < length args then
                (case args ! unat index of
                   Imm c \<Rightarrow> i\<lparr>opcode := kMove, inputs := Imm c # others\<rparr>
                              # spec_bind_arguments args rest
                 | _ \<Rightarrow> spec_bind_arguments args rest)
              else spec_bind_arguments args rest)
         | _ \<Rightarrow> spec_bind_arguments args rest)
      else i # spec_bind_arguments args rest)"

text \<open>
  A block of the callee as the spec wants it in the caller after the pass (4.3 to 4.5):
  the copy of its instructions, with the parameter loads bound and the returns deleted.
\<close>

definition spec_inlined_block :: "operand list \<Rightarrow> bid \<Rightarrow> iid \<Rightarrow> instr list \<Rightarrow> instr list" where
  "spec_inlined_block args base ibase xs =
     filter (\<lambda>i. \<not> isReturn i) (spec_bind_arguments args (map (copy_instr base ibase) xs))"

text \<open>
  The second list is the first one, instruction by instruction, up to the retargeting of
  linked operands that \<^verbatim>\<open>resolveLinkedArgumentsUses\<close> does with some map: opcodes,
  addresses, output operands and all operands that are not linked stay as they are.
\<close>

definition retargeted :: "instr list \<Rightarrow> instr list \<Rightarrow> bool" where
  "retargeted xs ys =
     list_all2 (\<lambda>x y. \<exists>vmap. y = resolveLinkedArgumentsUses vmap x) xs ys"


section \<open>Example functions\<close>

text \<open>A function given by its blocks in stored order, each with its address; every other
  address holds an empty block.\<close>

definition empty_block :: basicblock where
  "empty_block = \<lparr>instructions = [], predecessors = [], successors = []\<rparr>"

definition function_of :: "(bid \<times> basicblock) list \<Rightarrow> lir_function" where
  "function_of bs =
     \<lparr>basicblocks = map fst bs,
      block_at = (\<lambda>b. case map_of bs b of None \<Rightarrow> empty_block | Some blk \<Rightarrow> blk)\<rparr>"

definition mk_instr :: "iid \<Rightarrow> opcode \<Rightarrow> operand list \<Rightarrow> instr" where
  "mk_instr i opc ins = \<lparr>iid = i, opcode = opc, inputs = ins, output_operand = OutVReg\<rparr>"

definition mk_block :: "instr list \<Rightarrow> bid list \<Rightarrow> bid list \<Rightarrow> basicblock" where
  "mk_block is ps ss = \<lparr>instructions = is, predecessors = ps, successors = ss\<rparr>"

text \<open>A call of the function at address 4096 with the immediate argument 7.\<close>

definition call_imm7 :: instr where
  "call_imm7 = mk_instr 100 kCall [Imm 4096, Imm 7]"

text \<open>Scenario A of the spec: load parameter 0, double it, return it; then the empty exit
  block.\<close>

definition callee_double :: lir_function where
  "callee_double = function_of
     [(0, mk_block [mk_instr 1 kLoadArg [Imm 0],
                    mk_instr 2 (kOther 0) [Linked 1, Linked 1],
                    mk_instr 3 kReturn [Linked 2]] [] [1]),
      (1, mk_block [] [0] [])]"

text \<open>A return in the middle of its block.\<close>

definition callee_return_mid :: lir_function where
  "callee_return_mid = function_of
     [(0, mk_block [mk_instr 1 kReturn [Imm 1], mk_instr 2 kNop []] [] [1]),
      (1, mk_block [] [0] [])]"

text \<open>Scenario E of the spec: the callee loads parameter 1 and the call passes one
  argument.\<close>

definition callee_loads_param1 :: lir_function where
  "callee_loads_param1 = function_of
     [(0, mk_block [mk_instr 1 kLoadArg [Imm 1], mk_instr 2 kReturn [Linked 1]] [] [1]),
      (1, mk_block [] [0] [])]"

text \<open>A call that passes a memory operand as its argument.\<close>

definition call_ind :: instr where
  "call_ind = mk_instr 100 kCall [Imm 4096, Ind (Linked 5) None]"

text \<open>Three blocks in a chain from block 0 over block 2 to block 1: block 0 is the only
  block without predecessors and block 1 the only one without successors, but the block
  stored first is block 2, which has a predecessor.\<close>

definition callee_entry_second :: lir_function where
  "callee_entry_second = function_of
     [(2, mk_block [mk_instr 1 kNop []] [0] [1]),
      (0, mk_block [mk_instr 2 kNop []] [] [2]),
      (1, mk_block [] [2] [])]"

text \<open>A caller with the call in the middle of its first block, and the state of an inliner
  made for that call. Address 4096 resolves to the given name, whose LIR file parses to
  the given callee.\<close>

definition caller_of :: "instr \<Rightarrow> lir_function" where
  "caller_of call_instr = function_of
     [(0, mk_block [mk_instr 50 (kOther 1) [Imm 1], call_instr,
                    mk_instr 51 kReturn [Linked 100]] [] [1]),
      (1, mk_block [] [0] [])]"

definition inliner_of :: "instr \<Rightarrow> inliner" where
  "inliner_of call_instr =
     \<lparr>caller = caller_of call_instr, call_bb = 0, call_idx = 1, callee_start = 0,
      callee_end = 0, arguments = [], name_to_function = (\<lambda>name. None)\<rparr>"

definition env_of :: "string \<Rightarrow> lir_function \<Rightarrow> environment" where
  "env_of name callee =
     \<lparr>dladdr = (\<lambda>a. if a = 4096 then Some name else None),
      lir_text = (\<lambda>n. if n = name then Some ''function'' else None),
      parse_lir = (\<lambda>buffer. Some callee)\<rparr>"

text \<open>An address that belongs to no symbol.\<close>

definition env_no_symbol :: environment where
  "env_no_symbol =
     \<lparr>dladdr = (\<lambda>a. None), lir_text = (\<lambda>n. None), parse_lir = (\<lambda>buffer. None)\<rparr>"

text \<open>A callee whose only return has no input operand, and a call of it without
  arguments.\<close>

definition callee_bare_return :: lir_function where
  "callee_bare_return = function_of
     [(0, mk_block [mk_instr 1 kReturn []] [] [1]),
      (1, mk_block [] [0] [])]"

definition call_no_args :: instr where
  "call_no_args = mk_instr 100 kCall [Imm 4096]"

text \<open>Scenarios C and D of the spec: the callee branches on its parameter and returns on
  two paths, a constant on one and the parameter on the other; the call passes a linked
  reference to instruction 50 of the caller.\<close>

definition callee_two_returns :: lir_function where
  "callee_two_returns = function_of
     [(0, mk_block [mk_instr 1 kLoadArg [Imm 0], mk_instr 2 (kOther 2) [Linked 1]] [] [1, 2]),
      (1, mk_block [mk_instr 3 kReturn [Imm 1]] [0] [3]),
      (2, mk_block [mk_instr 4 kReturn [Linked 1]] [0] [3]),
      (3, mk_block [] [1, 2] [])]"

definition call_linked :: instr where
  "call_linked = mk_instr 100 kCall [Imm 4096, Linked 50]"

text \<open>Scenario B of the spec: a callee without a return.\<close>

definition callee_void :: lir_function where
  "callee_void = function_of
     [(0, mk_block [mk_instr 1 kLoadArg [Imm 0], mk_instr 2 (kOther 3) [Linked 1]] [] [1]),
      (1, mk_block [] [0] [])]"

text \<open>A callee that is one empty block, and a caller whose call stands right after a return
  in its block.\<close>

definition callee_empty :: lir_function where
  "callee_empty = function_of [(0, mk_block [] [] [])]"

definition inliner_after_return :: "instr \<Rightarrow> inliner" where
  "inliner_after_return call_instr =
     \<lparr>caller = function_of
         [(0, mk_block [mk_instr 50 kReturn [Imm 1], call_instr,
                        mk_instr 51 kReturn [Linked 100]] [] [1]),
          (1, mk_block [] [0] [])],
      call_bb = 0, call_idx = 1, callee_start = 0, callee_end = 0, arguments = [],
      name_to_function = (\<lambda>name. None)\<rparr>"

section \<open>The legality checker rejects\<close>

lemma succs_singleton_iff: "(length xs = 1 \<and> xs ! 0 = e) = (xs = [e])"
  by (cases xs) auto

lemma checkReturns_iff:
  "checkReturns e bb xs =
     (\<forall>k < length xs. isReturn (xs ! k) \<longrightarrow> k = length xs - 1 \<and> successors bb = [e])"
proof (induction xs)
  case Nil
  show ?case by simp
next
  case (Cons i rest)
  have split: "(\<forall>k < length (i # rest). P k) = (P 0 \<and> (\<forall>k < length rest. P (Suc k)))" for P
    by (auto simp: less_Suc_eq_0_disj)
  show ?case
    unfolding split using Cons.IH succs_singleton_iff [of "successors bb" e]
    by (cases rest) auto
qed

lemma checkBlocks_iff:
  "checkBlocks f en ex bs =
     (\<forall>b \<in> set bs. \<not> (predecessors (block_at f b) = [] \<and> b \<noteq> en) \<and>
        \<not> (successors (block_at f b) = [] \<and> b \<noteq> ex) \<and>
        checkReturns ex (block_at f b) (instructions (block_at f b)))"
  by (induction bs) auto

lemma checkArgumentsLoop_fst:
  "fst (checkArgumentsLoop xs args) = (\<forall>x \<in> set xs. isImm x \<or> isVreg x)"
  by (induction xs arbitrary: args) auto

lemma checkLoadArgInstrs_append:
  "checkLoadArgInstrs n flag (xs @ ys) =
     (case checkLoadArgInstrs n flag xs of None \<Rightarrow> None
      | Some fl \<Rightarrow> checkLoadArgInstrs n fl ys)"
  by (induction xs arbitrary: flag) (auto split: operand.splits)

lemma checkLoadArgBlocks_flat:
  "checkLoadArgBlocks f n flag bs =
     (checkLoadArgInstrs n flag (concat (map (\<lambda>b. instructions (block_at f b)) bs)) \<noteq> None)"
  by (induction bs arbitrary: flag) (auto simp: checkLoadArgInstrs_append split: option.splits)

lemma checkLoadArgInstrs_False:
  "checkLoadArgInstrs n False xs = Some fl \<Longrightarrow> x \<in> set xs \<Longrightarrow> \<not> isLoadArg x"
  by (induction xs) (auto split: if_splits)

lemma checkLoadArgInstrs_good:
  "checkLoadArgInstrs n flag xs = Some fl \<Longrightarrow> x \<in> set xs \<Longrightarrow> isLoadArg x \<Longrightarrow>
     inputs x \<noteq> [] \<and> (\<exists>c. inputs x ! 0 = Imm c \<and> unat c < n)"
  by (induction xs arbitrary: flag) (auto simp: getNumInputs_def split: if_splits operand.splits)

lemma checkLoadArgInstrs_prefix:
  "checkLoadArgInstrs n flag xs = Some fl \<Longrightarrow> j < k \<Longrightarrow> k < length xs \<Longrightarrow>
     \<not> isLoadArg (xs ! j) \<Longrightarrow> \<not> isLoadArg (xs ! k)"
proof (induction xs arbitrary: flag j k)
  case Nil
  then show ?case by simp
next
  case (Cons i rest)
  show ?case
  proof (cases j)
    case 0
    then have ni: "\<not> isLoadArg i" using Cons.prems by simp
    then have "checkLoadArgInstrs n False rest = Some fl"
      using Cons.prems(1) by (auto split: if_splits)
    moreover have "(i # rest) ! k \<in> set rest" using Cons.prems 0 by (cases k) auto
    ultimately show ?thesis using checkLoadArgInstrs_False by blast
  next
    case (Suc j')
    then obtain k' where k: "k = Suc k'" using Cons.prems by (cases k) auto
    obtain fl' where "checkLoadArgInstrs n fl' rest = Some fl"
      using Cons.prems(1) by (auto split: if_splits operand.splits)
    then show ?thesis using Cons.IH [of fl' j' k'] Cons.prems Suc k by auto
  qed
qed

lemma isInlineable_True:
  "fst (isInlineable call_instr callee args) \<Longrightarrow>
     checkEntryExitReturn callee \<and> fst (checkArguments call_instr args) \<and>
     checkLoadArg call_instr callee"
  by (auto simp: isInlineable_def split: if_splits prod.splits)

lemma checkEntryExitReturn_True:
  assumes "checkEntryExitReturn callee"
  shows "\<exists>en rest. basicblocks callee = en # rest \<and>
           predecessors (block_at callee en) = [] \<and>
           successors (block_at callee (last (basicblocks callee))) = [] \<and>
           checkBlocks callee en (last (basicblocks callee)) (basicblocks callee) \<and>
           instructions (block_at callee (last (basicblocks callee))) = []"
  using assms
  by (cases "basicblocks callee")
     (auto simp: checkEntryExitReturn_def getEntryBlock_def Let_def split: if_splits)

text \<open>
  Claim C5. \<^verbatim>\<open>isInlineable\<close> returns false whenever the callee breaks the single-entry,
  single-exit shape: it has no basic block, or its entry block has a predecessor, or a
  block other than the entry has no predecessor, or a block other than the exit (the last
  stored block) has no successor, or some return is not the last instruction of a block
  whose only successor is the exit block, or the exit block holds an instruction.
\<close>

theorem isInlineable_rejects_bad_structure:
  assumes "basicblocks callee = []
     \<or> (\<exists>en. getEntryBlock callee = Some en \<and> predecessors (block_at callee en) \<noteq> [])
     \<or> (\<exists>b \<in> set (basicblocks callee).
           getEntryBlock callee \<noteq> Some b \<and> predecessors (block_at callee b) = [])
     \<or> (\<exists>b \<in> set (basicblocks callee).
           b \<noteq> last (basicblocks callee) \<and> successors (block_at callee b) = [])
     \<or> (\<exists>b \<in> set (basicblocks callee). \<exists>k < length (instructions (block_at callee b)).
           isReturn (instructions (block_at callee b) ! k) \<and>
           \<not> (k = length (instructions (block_at callee b)) - 1 \<and>
              successors (block_at callee b) = [last (basicblocks callee)]))
     \<or> instructions (block_at callee (last (basicblocks callee))) \<noteq> []"
  shows "fst (isInlineable call_instr callee args) = False"
proof (rule ccontr)
  assume "fst (isInlineable call_instr callee args) \<noteq> False"
  then have "checkEntryExitReturn callee" using isInlineable_True by blast
  from checkEntryExitReturn_True [OF this] obtain en rest where
    bs: "basicblocks callee = en # rest" and
    en: "predecessors (block_at callee en) = []" and
    cb: "checkBlocks callee en (last (basicblocks callee)) (basicblocks callee)" and
    ex: "instructions (block_at callee (last (basicblocks callee))) = []"
    by blast
  have ge: "getEntryBlock callee = Some en" by (simp add: getEntryBlock_def bs)
  from cb have all: "\<forall>b \<in> set (basicblocks callee).
        \<not> (predecessors (block_at callee b) = [] \<and> b \<noteq> en) \<and>
        \<not> (successors (block_at callee b) = [] \<and> b \<noteq> last (basicblocks callee)) \<and>
        (\<forall>k < length (instructions (block_at callee b)).
           isReturn (instructions (block_at callee b) ! k) \<longrightarrow>
             k = length (instructions (block_at callee b)) - 1 \<and>
             successors (block_at callee b) = [last (basicblocks callee)])"
    by (simp add: checkBlocks_iff checkReturns_iff)
  from assms bs en ex ge all show False by auto
qed

theorem isInlineable_rejects_bad_structure_witness:
  "(\<exists>b \<in> set (basicblocks callee_return_mid).
      \<exists>k < length (instructions (block_at callee_return_mid b)).
        isReturn (instructions (block_at callee_return_mid b) ! k) \<and>
        \<not> (k = length (instructions (block_at callee_return_mid b)) - 1 \<and>
           successors (block_at callee_return_mid b) = [last (basicblocks callee_return_mid)]))
   \<and> fst (isInlineable call_imm7 callee_return_mid []) = False"
proof -
  have h: "\<exists>b \<in> set (basicblocks callee_return_mid).
      \<exists>k < length (instructions (block_at callee_return_mid b)).
        isReturn (instructions (block_at callee_return_mid b) ! k) \<and>
        \<not> (k = length (instructions (block_at callee_return_mid b)) - 1 \<and>
           successors (block_at callee_return_mid b) = [last (basicblocks callee_return_mid)])"
    by (rule bexI [of _ 0], rule exI [of _ 0])
       (simp_all add: callee_return_mid_def function_of_def mk_block_def mk_instr_def
          isReturn_def)
  then show ?thesis
    using isInlineable_rejects_bad_structure [of callee_return_mid call_imm7 "[]"] by blast
qed

text \<open>
  Claim C7. \<^verbatim>\<open>isInlineable\<close> returns false when some actual argument of the call (an
  input after the first, the callee address) is neither an immediate nor a virtual or
  linked register reference; in particular when it is an indirect memory operand.
\<close>

theorem isInlineable_rejects_bad_argument:
  assumes "(\<exists>x \<in> set (drop 1 (inputs call_instr)). \<not> isImm x \<and> \<not> isVreg x)
     \<or> (\<exists>x \<in> set (drop 1 (inputs call_instr)). isInd x)"
  shows "fst (isInlineable call_instr callee args) = False"
proof (rule ccontr)
  assume "fst (isInlineable call_instr callee args) \<noteq> False"
  then have "fst (checkArguments call_instr args)" using isInlineable_True by blast
  then have ok: "\<forall>x \<in> set (drop 1 (inputs call_instr)). isImm x \<or> isVreg x"
    by (simp add: checkArguments_def checkArgumentsLoop_fst)
  have "isInd x \<Longrightarrow> \<not> isImm x \<and> \<not> isVreg x" for x by (cases x) auto
  with assms ok show False by blast
qed

theorem isInlineable_rejects_bad_argument_witness:
  "(\<exists>x \<in> set (drop 1 (inputs call_ind)). isInd x)
   \<and> fst (isInlineable call_ind callee_double []) = False"
proof -
  have h: "\<exists>x \<in> set (drop 1 (inputs call_ind)). isInd x"
    by (simp add: call_ind_def mk_instr_def)
  then show ?thesis
    using isInlineable_rejects_bad_argument [of call_ind callee_double "[]"] by blast
qed

text \<open>
  Claim C6. For a call that has its callee-address operand, \<^verbatim>\<open>isInlineable\<close> returns
  false when, in the callee's instructions in stored order, a parameter load stands after
  an instruction that is not a parameter load, or when some parameter load has no input,
  or a first input that is not an immediate, or an index that is at least the number of
  actual arguments (the inputs of the call less the callee address).
\<close>

theorem isInlineable_rejects_bad_loadarg:
  assumes "inputs call_instr \<noteq> []"
    and "(\<exists>j k. j < k \<and> k < length (instructions_in_order callee) \<and>
            \<not> isLoadArg (instructions_in_order callee ! j) \<and>
            isLoadArg (instructions_in_order callee ! k))
      \<or> (\<exists>i \<in> set (instructions_in_order callee). isLoadArg i \<and>
            (inputs i = [] \<or> \<not> isImm (inputs i ! 0) \<or>
             (\<exists>c. inputs i ! 0 = Imm c \<and> unat c \<ge> length (inputs call_instr) - 1)))"
  shows "fst (isInlineable call_instr callee args) = False"
proof (rule ccontr)
  let ?n = "(getNumInputs call_instr + 2 ^ 64 - 1) mod 2 ^ 64"
  let ?all = "instructions_in_order callee"
  assume "fst (isInlineable call_instr callee args) \<noteq> False"
  then have "checkLoadArg call_instr callee" using isInlineable_True by blast
  then obtain fl where run: "checkLoadArgInstrs ?n True ?all = Some fl"
    by (auto simp: checkLoadArg_def checkLoadArgBlocks_flat instructions_in_order_def)
  have n_le: "?n \<le> length (inputs call_instr) - 1"
  proof -
    obtain m where m: "length (inputs call_instr) = Suc m"
      using assms(1) by (cases "inputs call_instr") auto
    have "(Suc m + 2 ^ 64 - 1) mod 2 ^ 64 = m mod (2 ^ 64 :: nat)" by simp
    also have "\<dots> \<le> m" by (rule mod_less_eq_dividend)
    finally show ?thesis by (simp add: getNumInputs_def m)
  qed
  from assms(2) show False
  proof
    assume "\<exists>j k. j < k \<and> k < length ?all \<and> \<not> isLoadArg (?all ! j) \<and> isLoadArg (?all ! k)"
    then show False using checkLoadArgInstrs_prefix [OF run] by blast
  next
    assume "\<exists>i \<in> set ?all. isLoadArg i \<and>
            (inputs i = [] \<or> \<not> isImm (inputs i ! 0) \<or>
             (\<exists>c. inputs i ! 0 = Imm c \<and> unat c \<ge> length (inputs call_instr) - 1))"
    then obtain i where i: "i \<in> set ?all" "isLoadArg i"
      and bad: "inputs i = [] \<or> \<not> isImm (inputs i ! 0) \<or>
             (\<exists>c. inputs i ! 0 = Imm c \<and> unat c \<ge> length (inputs call_instr) - 1)"
      by blast
    from checkLoadArgInstrs_good [OF run i] obtain c where
      "inputs i \<noteq> []" "inputs i ! 0 = Imm c" "unat c < ?n" by blast
    with bad n_le show False by auto
  qed
qed

theorem isInlineable_rejects_bad_loadarg_witness:
  "inputs call_imm7 \<noteq> []
   \<and> (\<exists>i \<in> set (instructions_in_order callee_loads_param1). isLoadArg i \<and>
        (\<exists>c. inputs i ! 0 = Imm c \<and> unat c \<ge> length (inputs call_imm7) - 1))
   \<and> fst (isInlineable call_imm7 callee_loads_param1 []) = False"
proof -
  have h1: "inputs call_imm7 \<noteq> []" by (simp add: call_imm7_def mk_instr_def)
  have h2: "\<exists>i \<in> set (instructions_in_order callee_loads_param1). isLoadArg i \<and>
        (\<exists>c. inputs i ! 0 = Imm c \<and> unat c \<ge> length (inputs call_imm7) - 1)"
    by (simp add: instructions_in_order_def callee_loads_param1_def function_of_def
          mk_block_def mk_instr_def call_imm7_def isLoadArg_def)
  from h2 have "fst (isInlineable call_imm7 callee_loads_param1 []) = False"
    using isInlineable_rejects_bad_loadarg [OF h1, of callee_loads_param1 "[]"] by blast
  with h1 h2 show ?thesis by blast
qed

text \<open>
  Claim C10. When \<^verbatim>\<open>isInlineable\<close> returns true, the callee's first stored block is its
  only block without predecessors and its last stored block is its only block without
  successors. So a callee whose first stored block has a predecessor, or whose last stored
  block has a successor, is rejected, wherever else in the stored order a block without
  predecessors or without successors stands.
\<close>

theorem isInlineable_entry_first_exit_last:
  "(fst (isInlineable call_instr callee args) \<longrightarrow>
      (\<exists>first rest. basicblocks callee = first # rest \<and>
         (\<forall>b \<in> set (basicblocks callee).
            (predecessors (block_at callee b) = []) = (b = first)) \<and>
         (\<forall>b \<in> set (basicblocks callee).
            (successors (block_at callee b) = []) = (b = last (basicblocks callee)))))
   \<and> ((\<exists>first rest. basicblocks callee = first # rest \<and>
          (predecessors (block_at callee first) \<noteq> [] \<or>
           successors (block_at callee (last (basicblocks callee))) \<noteq> []))
        \<longrightarrow> fst (isInlineable call_instr callee args) = False)"
proof -
  define ex where "ex = last (basicblocks callee)"
  have req: "\<exists>first rest. basicblocks callee = first # rest \<and>
         (\<forall>b \<in> set (basicblocks callee).
            (predecessors (block_at callee b) = []) = (b = first)) \<and>
         (\<forall>b \<in> set (basicblocks callee). (successors (block_at callee b) = []) = (b = ex))"
    if "fst (isInlineable call_instr callee args)"
  proof -
    from that have "checkEntryExitReturn callee" using isInlineable_True by blast
    from checkEntryExitReturn_True [OF this] obtain en rest where
      bs: "basicblocks callee = en # rest" and
      en: "predecessors (block_at callee en) = []" and
      ex: "successors (block_at callee ex) = []" and
      cb: "checkBlocks callee en ex (basicblocks callee)"
      unfolding ex_def by blast
    from cb have a: "\<And>b. b \<in> set (basicblocks callee) \<Longrightarrow>
        predecessors (block_at callee b) = [] \<Longrightarrow> b = en"
      and b: "\<And>b. b \<in> set (basicblocks callee) \<Longrightarrow>
        successors (block_at callee b) = [] \<Longrightarrow> b = ex"
      by (simp_all add: checkBlocks_iff)
    have "\<forall>b \<in> set (basicblocks callee).
            (predecessors (block_at callee b) = []) = (b = en)"
      using a en by blast
    moreover have "\<forall>b \<in> set (basicblocks callee).
            (successors (block_at callee b) = []) = (b = ex)"
      using b ex by blast
    ultimately show ?thesis using bs by blast
  qed
  have rej: "fst (isInlineable call_instr callee args) = False"
    if "basicblocks callee = first # rest"
      and "predecessors (block_at callee first) \<noteq> [] \<or> successors (block_at callee ex) \<noteq> []"
    for first rest
  proof (rule ccontr)
    assume "fst (isInlineable call_instr callee args) \<noteq> False"
    then have "fst (isInlineable call_instr callee args)" by simp
    from req [OF this] obtain f r where
      f: "basicblocks callee = f # r"
      and p: "\<forall>b \<in> set (basicblocks callee). (predecessors (block_at callee b) = []) = (b = f)"
      and q: "\<forall>b \<in> set (basicblocks callee). (successors (block_at callee b) = []) = (b = ex)"
      by blast
    have "f = first" using f that(1) by simp
    moreover have "first \<in> set (basicblocks callee)" using that(1) by simp
    moreover have "ex \<in> set (basicblocks callee)"
      unfolding ex_def using that(1) by (intro last_in_set) simp
    ultimately show False using p q that(2) by blast
  qed
  show ?thesis using req rej unfolding ex_def by blast
qed

theorem isInlineable_entry_first_exit_last_witness:
  "fst (isInlineable call_imm7 callee_double [])
   \<and> (\<exists>first rest. basicblocks callee_double = first # rest \<and>
         predecessors (block_at callee_double first) = [])
   \<and> filter (\<lambda>b. predecessors (block_at callee_entry_second b) = [])
        (basicblocks callee_entry_second) = [0]
   \<and> filter (\<lambda>b. successors (block_at callee_entry_second b) = [])
        (basicblocks callee_entry_second) = [1]
   \<and> (\<exists>first rest. basicblocks callee_entry_second = first # rest \<and>
         predecessors (block_at callee_entry_second first) \<noteq> [])
   \<and> fst (isInlineable call_imm7 callee_entry_second []) = False"
proof -
  have good: "fst (isInlineable call_imm7 callee_double [])"
    by (simp add: isInlineable_def checkEntryExitReturn_def getEntryBlock_def
          checkArguments_def checkLoadArg_def callee_double_def function_of_def mk_block_def
          mk_instr_def call_imm7_def isReturn_def isLoadArg_def getNumInputs_def)
  have uniq: "filter (\<lambda>b. predecessors (block_at callee_entry_second b) = [])
        (basicblocks callee_entry_second) = [0]"
      "filter (\<lambda>b. successors (block_at callee_entry_second b) = [])
        (basicblocks callee_entry_second) = [1]"
    by (simp_all add: callee_entry_second_def function_of_def mk_block_def)
  have bad: "\<exists>first rest. basicblocks callee_entry_second = first # rest \<and>
         predecessors (block_at callee_entry_second first) \<noteq> []"
    by (simp add: callee_entry_second_def function_of_def mk_block_def)
  from good have g2: "\<exists>first rest. basicblocks callee_double = first # rest \<and>
         predecessors (block_at callee_double first) = []"
    using isInlineable_entry_first_exit_last [of call_imm7 callee_double "[]"] by auto
  from bad have "fst (isInlineable call_imm7 callee_entry_second []) = False"
    using isInlineable_entry_first_exit_last [of call_imm7 callee_entry_second "[]"] by blast
  with good g2 uniq bad show ?thesis by blast
qed

section \<open>Failed inlining\<close>

text \<open>
  Claim C2. When \<^verbatim>\<open>inlineCall\<close> returns false (the callee was not found, or
  \<^verbatim>\<open>isInlineable\<close> rejected it), the caller's function is unchanged: the same block list
  and the same blocks with the same instructions and operands, and the call instruction is
  where it was. Every check runs before the first change of the caller.
\<close>

theorem inlineCall_false_leaves_caller:
  assumes "inlineCall env st = Inr (False, st')"
  shows "caller st' = caller st \<and> call_bb st' = call_bb st \<and> call_idx st' = call_idx st
    \<and> (\<exists>c. getCallInstr st = Some c \<and>
          (fst (findFunction env c (name_to_function st)) = None \<or>
           (\<exists>callee. fst (findFunction env c (name_to_function st)) = Some callee \<and>
              \<not> fst (isInlineable c callee (arguments st)))))"
  using assms
  by (auto simp: inlineCall_def Let_def split: option.splits prod.splits sum.splits if_splits)

lemma isInlineable_param1_False:
  "isInlineable call_imm7 callee_loads_param1 [] = (False, [Imm 7])"
  by (simp add: isInlineable_def checkEntryExitReturn_def getEntryBlock_def
        checkArguments_def checkLoadArg_def callee_loads_param1_def function_of_def
        mk_block_def mk_instr_def call_imm7_def isReturn_def isLoadArg_def getNumInputs_def)

lemma getCallInstr_inliner_of: "getCallInstr (inliner_of c) = Some c"
  by (simp add: getCallInstr_def inliner_of_def caller_of_def function_of_def mk_block_def)

theorem inlineCall_false_leaves_caller_witness:
  "\<exists>st'. inlineCall (env_of ''f'' callee_loads_param1) (inliner_of call_imm7) = Inr (False, st')
     \<and> caller st' = caller (inliner_of call_imm7)
     \<and> call_bb st' = call_bb (inliner_of call_imm7)
     \<and> call_idx st' = call_idx (inliner_of call_imm7)"
proof -
  have ff: "findFunction (env_of ''f'' callee_loads_param1) call_imm7 (\<lambda>name. None)
      = (Some callee_loads_param1, (\<lambda>name. None)(''f'' \<mapsto> Some callee_loads_param1))"
    by (simp add: findFunction_def parseFunction_def env_of_def call_imm7_def mk_instr_def
          getNumInputs_def Let_def)
  have args: "arguments (inliner_of call_imm7) = []"
    and ntf: "name_to_function (inliner_of call_imm7) = (\<lambda>name. None)"
    by (simp_all add: inliner_of_def)
  have "\<exists>st'. inlineCall (env_of ''f'' callee_loads_param1) (inliner_of call_imm7)
      = Inr (False, st')"
    by (simp add: inlineCall_def getCallInstr_inliner_of ff args ntf isInlineable_param1_False)
  then obtain st' where
    r: "inlineCall (env_of ''f'' callee_loads_param1) (inliner_of call_imm7) = Inr (False, st')"
    by blast
  from inlineCall_false_leaves_caller [OF r] r show ?thesis by blast
qed

lemma findFunction_None_cases:
  assumes "inputs c = []
       \<or> \<not> isImm (inputs c ! 0)
       \<or> (\<exists>addr. inputs c ! 0 = Imm addr \<and> dladdr env addr = None)
       \<or> (\<exists>addr name. inputs c ! 0 = Imm addr \<and> dladdr env addr = Some name \<and>
             (cache name = Some None \<or>
              (cache name = None \<and>
                 (lir_text env name = None \<or>
                  (\<exists>buffer. lir_text env name = Some buffer \<and> parse_lir env buffer = None)))))"
  shows "fst (findFunction env c cache) = None"
  using assms
  by (cases "inputs c ! 0")
     (auto simp: findFunction_def parseFunction_def getNumInputs_def Let_def
           split: option.splits)

text \<open>
  Claim C8. For a call instruction whose first input (the callee address) is absent or
  not an immediate, or whose address has no symbol name, or whose name has no LIR text
  that can be read and parsed (none cached, or a null result cached), \<^verbatim>\<open>inlineCall\<close>
  returns false without failing and without changing the caller. When \<^verbatim>\<open>parseFunction\<close>
  returns a function, the map holds it under the name afterwards, and a later call with
  that name returns it from the map, whatever the files and the parser do then.
\<close>

theorem inlineCall_callee_unresolved:
  "(getCallInstr st = Some c \<and>
      (inputs c = []
       \<or> \<not> isImm (inputs c ! 0)
       \<or> (\<exists>addr. inputs c ! 0 = Imm addr \<and> dladdr env addr = None)
       \<or> (\<exists>addr name. inputs c ! 0 = Imm addr \<and> dladdr env addr = Some name \<and>
             (name_to_function st name = Some None \<or>
              (name_to_function st name = None \<and>
                 (lir_text env name = None \<or>
                  (\<exists>buffer. lir_text env name = Some buffer \<and> parse_lir env buffer = None))))))
      \<longrightarrow> (\<exists>st'. inlineCall env st = Inr (False, st') \<and> caller st' = caller st))
   \<and> (parseFunction env cache name = (Some f, cache')
      \<longrightarrow> cache' name = Some (Some f) \<and>
          (\<forall>env'. parseFunction env' cache' name = (Some f, cache')))"
proof (intro conjI impI)
  assume a: "getCallInstr st = Some c \<and>
      (inputs c = []
       \<or> \<not> isImm (inputs c ! 0)
       \<or> (\<exists>addr. inputs c ! 0 = Imm addr \<and> dladdr env addr = None)
       \<or> (\<exists>addr name. inputs c ! 0 = Imm addr \<and> dladdr env addr = Some name \<and>
             (name_to_function st name = Some None \<or>
              (name_to_function st name = None \<and>
                 (lir_text env name = None \<or>
                  (\<exists>buffer. lir_text env name = Some buffer \<and> parse_lir env buffer = None))))))"
  then have "fst (findFunction env c (name_to_function st)) = None"
    using findFunction_None_cases [of c env "name_to_function st"] by blast
  then obtain cache2 where "findFunction env c (name_to_function st) = (None, cache2)"
    by (cases "findFunction env c (name_to_function st)") auto
  with a show "\<exists>st'. inlineCall env st = Inr (False, st') \<and> caller st' = caller st"
    by (simp add: inlineCall_def)
next
  assume p: "parseFunction env cache name = (Some f, cache')"
  then show "cache' name = Some (Some f)"
    by (auto simp: parseFunction_def Let_def split: option.splits)
  then show "\<forall>env'. parseFunction env' cache' name = (Some f, cache')"
    by (simp add: parseFunction_def)
qed

theorem inlineCall_callee_unresolved_witness:
  "getCallInstr (inliner_of call_imm7) = Some call_imm7
   \<and> (\<exists>addr. inputs call_imm7 ! 0 = Imm addr \<and> dladdr env_no_symbol addr = None)
   \<and> (\<exists>st'. inlineCall env_no_symbol (inliner_of call_imm7) = Inr (False, st')
         \<and> caller st' = caller (inliner_of call_imm7))
   \<and> parseFunction (env_of ''f'' callee_double) (\<lambda>name. None) ''f''
       = (Some callee_double, (\<lambda>name. None)(''f'' \<mapsto> Some callee_double))
   \<and> parseFunction env_no_symbol ((\<lambda>name. None)(''f'' \<mapsto> Some callee_double)) ''f''
       = (Some callee_double, (\<lambda>name. None)(''f'' \<mapsto> Some callee_double))"
proof -
  have h1: "getCallInstr (inliner_of call_imm7) = Some call_imm7"
    by (rule getCallInstr_inliner_of)
  have h2: "\<exists>addr. inputs call_imm7 ! 0 = Imm addr \<and> dladdr env_no_symbol addr = None"
    by (simp add: call_imm7_def mk_instr_def env_no_symbol_def)
  have h3: "parseFunction (env_of ''f'' callee_double) (\<lambda>name. None) ''f''
       = (Some callee_double, (\<lambda>name. None)(''f'' \<mapsto> Some callee_double))"
    by (simp add: parseFunction_def env_of_def Let_def)
  have c1: "\<exists>st'. inlineCall env_no_symbol (inliner_of call_imm7) = Inr (False, st')
         \<and> caller st' = caller (inliner_of call_imm7)"
    by (rule inlineCall_callee_unresolved [where c = call_imm7, THEN conjunct1, THEN mp],
        rule conjI, rule h1, rule disjI2, rule disjI2, rule disjI1, rule h2)
  have c2: "parseFunction env_no_symbol ((\<lambda>name. None)(''f'' \<mapsto> Some callee_double)) ''f''
       = (Some callee_double, (\<lambda>name. None)(''f'' \<mapsto> Some callee_double))"
    using inlineCall_callee_unresolved [THEN conjunct2, THEN mp, OF h3] by blast
  from h1 h2 h3 c1 c2 show ?thesis by blast
qed

section \<open>Argument resolution\<close>

lemma resolveLoadArg_kept:
  "resolveLoadArg vm args i = Inr (vm', Some i') \<Longrightarrow>
     opcode i' = kMove \<and> length (inputs i') = length (inputs i) \<and> iid i' = iid i"
  by (auto simp: resolveLoadArg_def split: if_splits operand.splits)

lemma resolveLinkedArgumentsUses_simps [simp]:
  "opcode (resolveLinkedArgumentsUses vm i) = opcode i"
  "length (inputs (resolveLinkedArgumentsUses vm i)) = length (inputs i)"
  "iid (resolveLinkedArgumentsUses vm i) = iid i"
  by (simp_all add: resolveLinkedArgumentsUses_def)

text \<open>What \<open>resolveInstrs\<close> leaves: no parameter load; every return it leaves comes from a
  return of the same number of inputs; and returns stay at the end.\<close>

lemma resolveInstrs_no_LoadArg:
  "resolveInstrs vm args xs = Inr (vm', ys) \<Longrightarrow> y \<in> set ys \<Longrightarrow> \<not> isLoadArg y"
proof (induction xs arbitrary: vm vm' ys)
  case Nil
  then show ?case by simp
next
  case (Cons i rest)
  show ?case
  proof (cases "isLoadArg i")
    case True
    from Cons.prems(1) True obtain vm1 kept vm2 rest' where
      r1: "resolveLoadArg vm args i = Inr (vm1, kept)" and
      r2: "resolveInstrs vm1 args rest = Inr (vm2, rest')" and
      ys: "ys = (case kept of None \<Rightarrow> rest' | Some i' \<Rightarrow> i' # rest')"
      by (auto split: sum.splits prod.splits)
    show ?thesis
    proof (cases kept)
      case None
      then show ?thesis using ys Cons.IH [OF r2] Cons.prems(2) by simp
    next
      case (Some i')
      then have "opcode i' = kMove" using resolveLoadArg_kept r1 by blast
      then have "\<not> isLoadArg i'" by (simp add: isLoadArg_def)
      then show ?thesis using ys Some Cons.IH [OF r2] Cons.prems(2) by auto
    qed
  next
    case False
    from Cons.prems(1) False obtain vm2 rest' where
      r2: "resolveInstrs vm args rest = Inr (vm2, rest')" and
      ys: "ys = resolveLinkedArgumentsUses vm i # rest'"
      by (auto split: sum.splits prod.splits)
    have "\<not> isLoadArg (resolveLinkedArgumentsUses vm i)"
      using False by (simp add: isLoadArg_def)
    then show ?thesis using ys Cons.IH [OF r2] Cons.prems(2) by auto
  qed
qed

lemma resolveInstrs_return_origin:
  "resolveInstrs vm args xs = Inr (vm', ys) \<Longrightarrow> y \<in> set ys \<Longrightarrow> isReturn y \<Longrightarrow>
     \<exists>x \<in> set xs. isReturn x \<and> length (inputs x) = length (inputs y)"
proof (induction xs arbitrary: vm vm' ys)
  case Nil
  then show ?case by simp
next
  case (Cons i rest)
  show ?case
  proof (cases "isLoadArg i")
    case True
    from Cons.prems(1) True obtain vm1 kept vm2 rest' where
      r1: "resolveLoadArg vm args i = Inr (vm1, kept)" and
      r2: "resolveInstrs vm1 args rest = Inr (vm2, rest')" and
      ys: "ys = (case kept of None \<Rightarrow> rest' | Some i' \<Rightarrow> i' # rest')"
      by (auto split: sum.splits prod.splits)
    have "y \<in> set rest'"
    proof (cases kept)
      case None
      then show ?thesis using ys Cons.prems(2) by simp
    next
      case (Some i')
      then have "opcode i' = kMove" using resolveLoadArg_kept r1 by blast
      then have "\<not> isReturn i'" by (simp add: isReturn_def)
      then show ?thesis using ys Some Cons.prems(2,3) by auto
    qed
    from Cons.IH [OF r2 this Cons.prems(3)] show ?thesis by auto
  next
    case False
    from Cons.prems(1) False obtain vm2 rest' where
      r2: "resolveInstrs vm args rest = Inr (vm2, rest')" and
      ys: "ys = resolveLinkedArgumentsUses vm i # rest'"
      by (auto split: sum.splits prod.splits)
    show ?thesis
    proof (cases "y = resolveLinkedArgumentsUses vm i")
      case True
      then have "isReturn i \<and> length (inputs i) = length (inputs y)"
        using Cons.prems(3) by (simp add: isReturn_def)
      then show ?thesis by auto
    next
      case False
      then have "y \<in> set rest'" using ys Cons.prems(2) by simp
      from Cons.IH [OF r2 this Cons.prems(3)] show ?thesis by auto
    qed
  qed
qed

lemma resolveInstrs_returns_last:
  "resolveInstrs vm args xs = Inr (vm', ys) \<Longrightarrow> \<forall>x \<in> set (butlast xs). \<not> isReturn x \<Longrightarrow>
     y \<in> set (butlast ys) \<Longrightarrow> \<not> isReturn y"
proof (induction xs arbitrary: vm vm' ys)
  case Nil
  then show ?case by simp
next
  case (Cons i rest)
  show ?case
  proof (cases "rest = []")
    case True
    with Cons.prems(1) have "length ys \<le> 1"
      by (auto split: if_splits sum.splits prod.splits option.splits)
    then have "butlast ys = []" by (cases ys) auto
    with Cons.prems(3) show ?thesis by simp
  next
    case False
    then have ni: "\<not> isReturn i" and br: "\<forall>x \<in> set (butlast rest). \<not> isReturn x"
      using Cons.prems(2) by auto
    show ?thesis
    proof (cases "isLoadArg i")
      case True
      from Cons.prems(1) True obtain vm1 kept vm2 rest' where
        r1: "resolveLoadArg vm args i = Inr (vm1, kept)" and
        r2: "resolveInstrs vm1 args rest = Inr (vm2, rest')" and
        ys: "ys = (case kept of None \<Rightarrow> rest' | Some i' \<Rightarrow> i' # rest')"
        by (auto split: sum.splits prod.splits)
      show ?thesis
      proof (cases kept)
        case None
        then show ?thesis using ys Cons.IH [OF r2 br] Cons.prems(3) by simp
      next
        case (Some i')
        then have "opcode i' = kMove" using resolveLoadArg_kept r1 by blast
        then have "\<not> isReturn i'" by (simp add: isReturn_def)
        then show ?thesis using ys Some Cons.IH [OF r2 br] Cons.prems(3)
          by (auto split: if_splits)
      qed
    next
      case False
      from Cons.prems(1) False obtain vm2 rest' where
        r2: "resolveInstrs vm args rest = Inr (vm2, rest')" and
        ys: "ys = resolveLinkedArgumentsUses vm i # rest'"
        by (auto split: sum.splits prod.splits)
      have "\<not> isReturn (resolveLinkedArgumentsUses vm i)"
        using ni by (simp add: isReturn_def)
      then show ?thesis using ys Cons.IH [OF r2 br] Cons.prems(3)
        by (auto split: if_splits)
    qed
  qed
qed

lemma resolveInstrs_failure:
  "resolveInstrs vm args xs = Inl e \<Longrightarrow> \<forall>x \<in> set xs. isLoadArg x \<longrightarrow> bindable args x \<Longrightarrow>
     e = JitDCheckFailed"
proof (induction xs arbitrary: vm)
  case Nil
  then show ?case by simp
next
  case (Cons i rest)
  show ?case
  proof (cases "isLoadArg i")
    case True
    then have "bindable args i" using Cons.prems(2) by simp
    then have "resolveLoadArg vm args i = Inl JitDCheckFailed \<or>
        (\<exists>vm1 kept. resolveLoadArg vm args i = Inr (vm1, kept))"
      by (auto simp: resolveLoadArg_def bindable_def getNumInputs_def split: operand.splits)
    then show ?thesis using Cons.prems Cons.IH True
      by (auto split: sum.splits prod.splits)
  next
    case False
    then show ?thesis using Cons.prems Cons.IH by (auto split: sum.splits prod.splits)
  qed
qed

lemma resolveInstrs_success:
  "\<forall>x \<in> set xs. isLoadArg x \<longrightarrow> bindable args x \<Longrightarrow> \<forall>a \<in> set args. isImm a \<or> isLinked a \<Longrightarrow>
     \<exists>vm' ys. resolveInstrs vm args xs = Inr (vm', ys)"
proof (induction xs arbitrary: vm)
  case Nil
  then show ?case by simp
next
  case (Cons i rest)
  show ?case
  proof (cases "isLoadArg i")
    case True
    then have bi: "bindable args i" using Cons.prems(1) by simp
    then obtain c where c: "inputs i \<noteq> []" "inputs i ! 0 = Imm c" "unat c < length args"
      by (auto simp: bindable_def)
    then have "isImm (args ! unat c) \<or> isLinked (args ! unat c)"
      using Cons.prems(2) by simp
    then obtain vm1 kept where r1: "resolveLoadArg vm args i = Inr (vm1, kept)"
      using c by (cases "args ! unat c") (auto simp: resolveLoadArg_def getNumInputs_def)
    obtain vm2 rest' where "resolveInstrs vm1 args rest = Inr (vm2, rest')"
      using Cons.IH [of vm1] Cons.prems by auto
    with r1 True show ?thesis by simp
  next
    case False
    obtain vm2 rest' where "resolveInstrs vm args rest = Inr (vm2, rest')"
      using Cons.IH [of vm] Cons.prems by auto
    with False show ?thesis by simp
  qed
qed

lemma setInstructions_simps [simp]:
  "basicblocks (setInstructions f bb is) = basicblocks f"
  "instructions (block_at (setInstructions f bb is) y) =
     (if y = bb then is else instructions (block_at f y))"
  "predecessors (block_at (setInstructions f bb is) y) = predecessors (block_at f y)"
  "successors (block_at (setInstructions f bb is) y) = successors (block_at f y)"
  by (simp_all add: setInstructions_def)

lemma resolveBlocks_frame:
  "resolveBlocks args ks vm f = Inr (vm', f') \<Longrightarrow>
     basicblocks f' = basicblocks f \<and>
     (\<forall>y. predecessors (block_at f' y) = predecessors (block_at f y) \<and>
          successors (block_at f' y) = successors (block_at f y)) \<and>
     (\<forall>y. y \<notin> (\<lambda>k. basicblocks f ! k) ` set ks \<longrightarrow>
          instructions (block_at f' y) = instructions (block_at f y))"
proof (induction ks arbitrary: vm f)
  case Nil
  then show ?case by simp
next
  case (Cons k ks)
  from Cons.prems obtain vm1 ys where
    k: "k < length (basicblocks f)" and
    r2: "resolveBlocks args ks vm1 (setInstructions f (basicblocks f ! k) ys) = Inr (vm', f')"
    by (auto simp: Let_def split: if_splits sum.splits prod.splits)
  from Cons.IH [OF r2] show ?case by auto
qed

text \<open>A relation between the instruction lists of a block before and after that each run
  of \<open>resolveInstrs\<close> establishes, and that is reflexive and transitive, holds across
  \<open>resolveBlocks\<close>.\<close>

lemma resolveBlocks_rel:
  assumes refl: "\<And>xs. R xs xs"
    and trans: "\<And>xs ys zs. R xs ys \<Longrightarrow> R ys zs \<Longrightarrow> R xs zs"
    and step: "\<And>vm xs vm' ys. resolveInstrs vm args xs = Inr (vm', ys) \<Longrightarrow> R xs ys"
  shows "resolveBlocks args ks vm f = Inr (vm', f') \<Longrightarrow>
     R (instructions (block_at f y)) (instructions (block_at f' y))"
proof (induction ks arbitrary: vm f)
  case Nil
  then show ?case using refl by simp
next
  case (Cons k ks)
  from Cons.prems obtain vm1 ys where
    r1: "resolveInstrs vm args (instructions (block_at f (basicblocks f ! k))) = Inr (vm1, ys)" and
    r2: "resolveBlocks args ks vm1 (setInstructions f (basicblocks f ! k) ys) = Inr (vm', f')"
    by (auto simp: Let_def split: if_splits sum.splits prod.splits)
  have "R (instructions (block_at f y))
          (instructions (block_at (setInstructions f (basicblocks f ! k) ys) y))"
    using step [OF r1] refl by simp
  with Cons.IH [OF r2] show ?case using trans by blast
qed

lemma resolveBlocks_no_LoadArg:
  "resolveBlocks args ks vm f = Inr (vm', f') \<Longrightarrow> k \<in> set ks \<Longrightarrow>
     i \<in> set (instructions (block_at f' (basicblocks f ! k))) \<Longrightarrow> \<not> isLoadArg i"
proof (induction ks arbitrary: vm f)
  case Nil
  then show ?case by simp
next
  case (Cons k0 ks)
  let ?f1 = "\<lambda>ys. setInstructions f (basicblocks f ! k0) ys"
  from Cons.prems(1) obtain vm1 ys where
    r1: "resolveInstrs vm args (instructions (block_at f (basicblocks f ! k0))) = Inr (vm1, ys)" and
    r2: "resolveBlocks args ks vm1 (?f1 ys) = Inr (vm', f')"
    by (auto simp: Let_def split: if_splits sum.splits prod.splits)
  show ?case
  proof (cases "k \<in> set ks")
    case True
    from Cons.IH [OF r2 True] Cons.prems(3) show ?thesis by simp
  next
    case False
    then have k: "k = k0" using Cons.prems(2) by simp
    have keep: "(\<forall>x \<in> set (instructions (block_at (?f1 ys) y)). \<not> isLoadArg x) \<longrightarrow>
        (\<forall>x \<in> set (instructions (block_at f' y)). \<not> isLoadArg x)" for y
      by (rule resolveBlocks_rel
            [where R = "\<lambda>xs ys. (\<forall>x \<in> set xs. \<not> isLoadArg x) \<longrightarrow> (\<forall>x \<in> set ys. \<not> isLoadArg x)",
             OF _ _ _ r2])
         (auto dest: resolveInstrs_no_LoadArg)
    have "\<forall>x \<in> set (instructions (block_at (?f1 ys) (basicblocks f ! k0))). \<not> isLoadArg x"
      using resolveInstrs_no_LoadArg [OF r1] by simp
    with keep [of "basicblocks f ! k0"] Cons.prems(3) k show ?thesis by blast
  qed
qed

lemma resolveBlocks_failure:
  "resolveBlocks args ks vm f = Inl e \<Longrightarrow> \<forall>k \<in> set ks. k < length (basicblocks f) \<Longrightarrow>
     \<forall>k \<in> set ks. \<forall>x \<in> set (instructions (block_at f (basicblocks f ! k))).
        isLoadArg x \<longrightarrow> bindable args x \<Longrightarrow>
     e = JitDCheckFailed"
proof (induction ks arbitrary: vm f)
  case Nil
  then show ?case by simp
next
  case (Cons k0 ks)
  let ?b = "basicblocks f ! k0"
  have k0: "k0 < length (basicblocks f)" using Cons.prems(2) by simp
  show ?case
  proof (cases "resolveInstrs vm args (instructions (block_at f ?b))")
    case (Inl e')
    then have "e' = JitDCheckFailed" using resolveInstrs_failure Cons.prems(3) by auto
    with Inl Cons.prems(1) k0 show ?thesis by (simp add: Let_def)
  next
    case (Inr p)
    then obtain vm1 ys where
      r1: "resolveInstrs vm args (instructions (block_at f ?b)) = Inr (vm1, ys)"
      by (cases p) auto
    with Cons.prems(1) k0 have
      r2: "resolveBlocks args ks vm1 (setInstructions f ?b ys) = Inl e"
      by (simp add: Let_def)
    have "\<forall>k \<in> set ks. \<forall>x \<in> set (instructions
            (block_at (setInstructions f ?b ys) (basicblocks (setInstructions f ?b ys) ! k))).
          isLoadArg x \<longrightarrow> bindable args x"
      using Cons.prems(3) resolveInstrs_no_LoadArg [OF r1] by auto
    with Cons.IH [OF r2] Cons.prems(2) show ?thesis by simp
  qed
qed

lemma resolveBlocks_success:
  "\<forall>k \<in> set ks. k < length (basicblocks f) \<Longrightarrow>
     \<forall>k \<in> set ks. \<forall>x \<in> set (instructions (block_at f (basicblocks f ! k))).
        isLoadArg x \<longrightarrow> bindable args x \<Longrightarrow>
     \<forall>a \<in> set args. isImm a \<or> isLinked a \<Longrightarrow>
     \<exists>vm' f'. resolveBlocks args ks vm f = Inr (vm', f')"
proof (induction ks arbitrary: vm f)
  case Nil
  then show ?case by simp
next
  case (Cons k0 ks)
  let ?b = "basicblocks f ! k0"
  have k0: "k0 < length (basicblocks f)" using Cons.prems(1) by simp
  obtain vm1 ys where
    r1: "resolveInstrs vm args (instructions (block_at f ?b)) = Inr (vm1, ys)"
    using resolveInstrs_success [of "instructions (block_at f ?b)" args vm] Cons.prems
    by auto
  have "\<forall>k \<in> set ks. \<forall>x \<in> set (instructions
          (block_at (setInstructions f ?b ys) (basicblocks (setInstructions f ?b ys) ! k))).
        isLoadArg x \<longrightarrow> bindable args x"
    using Cons.prems(2) resolveInstrs_no_LoadArg [OF r1] by auto
  then obtain vm' f' where
    "resolveBlocks args ks vm1 (setInstructions f ?b ys) = Inr (vm', f')"
    using Cons.IH [of "setInstructions f ?b ys" vm1] Cons.prems(1,3) by auto
  with r1 k0 show ?case by (simp add: Let_def)
qed

section \<open>Return merging\<close>

lemma appendPhiInput_frame [simp]:
  "basicblocks (appendPhiInput f e opnd) = basicblocks f"
  "predecessors (block_at (appendPhiInput f e opnd) y) = predecessors (block_at f y)"
  "successors (block_at (appendPhiInput f e opnd) y) = successors (block_at f y)"
  by (simp_all add: appendPhiInput_def split: list.splits)

lemma appendPhiInput_other [simp]:
  "y \<noteq> e \<Longrightarrow> instructions (block_at (appendPhiInput f e opnd) y) = instructions (block_at f y)"
  by (simp add: appendPhiInput_def split: list.splits)

lemma appendPhiInput_snoc:
  assumes "instructions (block_at f e) = xs @ [phi]"
  shows "instructions (block_at (appendPhiInput f e opnd) e)
           = xs @ [phi\<lparr>inputs := inputs phi @ [opnd]\<rparr>]"
proof -
  obtain z zs where zs: "xs @ [phi] = z # zs" by (cases xs) auto
  have "butlast (z # zs) = xs" "last (z # zs) = phi"
    using zs [symmetric] by simp_all
  then show ?thesis using assms zs by (simp add: appendPhiInput_def)
qed

lemma removeLastInstr_simps [simp]:
  "basicblocks (removeLastInstr f bb) = basicblocks f"
  "predecessors (block_at (removeLastInstr f bb) y) = predecessors (block_at f y)"
  "successors (block_at (removeLastInstr f bb) y) = successors (block_at f y)"
  "instructions (block_at (removeLastInstr f bb) y) =
     (if y = bb then butlast (instructions (block_at f bb)) else instructions (block_at f y))"
  by (simp_all add: removeLastInstr_def)

lemma allocateInstr_simps [simp]:
  "basicblocks (allocateInstr f bb i) = basicblocks f"
  "predecessors (block_at (allocateInstr f bb i) y) = predecessors (block_at f y)"
  "successors (block_at (allocateInstr f bb i) y) = successors (block_at f y)"
  "instructions (block_at (allocateInstr f bb i) y) =
     (if y = bb then instructions (block_at f bb) @ [i] else instructions (block_at f y))"
  by (simp_all add: allocateInstr_def)

lemma getLastInstr_eq:
  "getLastInstr f bb =
     (if instructions (block_at f bb) = [] then None
      else Some (last (instructions (block_at f bb))))"
  by (simp add: getLastInstr_def split: list.splits)

lemma ends_in_return_eq:
  "ends_in_return f bb =
     (instructions (block_at f bb) \<noteq> [] \<and> isReturn (last (instructions (block_at f bb))))"
  by (simp add: ends_in_return_def getLastInstr_eq)

text \<open>One step of the loop, on a predecessor other than the epilogue.\<close>

lemma mergeReturns_Cons:
  "mergeReturns e (p # rest) f =
     (if ends_in_return f p then
        (if inputs (last (instructions (block_at f p))) = [] then Inl JitCheckFailed
         else mergeReturns e rest
                (removeLastInstr
                   (appendPhiInput (appendPhiInput f e (Label p)) e
                      (inputs (last (instructions (block_at f p))) ! 0)) p))
      else mergeReturns e rest f)"
  by (simp add: ends_in_return_eq getLastInstr_eq getNumInputs_def Let_def)

declare mergeReturns.simps(2) [simp del]

lemma mergeReturns_failure: "mergeReturns e ps f = Inl err \<Longrightarrow> err = JitCheckFailed"
  by (induction ps arbitrary: f) (auto simp: mergeReturns_Cons split: if_splits)

lemma mergeReturns_frame:
  "mergeReturns e ps f = Inr f' \<Longrightarrow>
     basicblocks f' = basicblocks f \<and>
     (\<forall>y. predecessors (block_at f' y) = predecessors (block_at f y) \<and>
          successors (block_at f' y) = successors (block_at f y))"
  by (induction ps arbitrary: f) (auto simp: mergeReturns_Cons split: if_splits)

text \<open>The exact result of the loop when the predecessors are pairwise different.\<close>

lemma mergeReturns_distinct:
  assumes "mergeReturns e ps f = Inr f'"
    and "instructions (block_at f e) = xs @ [phi]"
    and "\<not> isReturn phi"
    and "distinct ps"
  shows "instructions (block_at f' e) =
           xs @ [phi\<lparr>inputs := inputs phi @
                   concat (map (\<lambda>p. [Label p, inputs (last (instructions (block_at f p))) ! 0])
                             (filter (ends_in_return f) ps))\<rparr>]
       \<and> (\<forall>y. y \<noteq> e \<longrightarrow> instructions (block_at f' y) =
              (if y \<in> set ps \<and> ends_in_return f y then butlast (instructions (block_at f y))
               else instructions (block_at f y)))"
  using assms
proof (induction ps arbitrary: f phi)
  case Nil
  then show ?case by simp
next
  case (Cons p rest)
  show ?case
  proof (cases "ends_in_return f p")
    case False
    with Cons.prems have "mergeReturns e rest f = Inr f'" by (simp add: mergeReturns_Cons)
    from Cons.IH [OF this Cons.prems(2,3)] Cons.prems(4) False show ?thesis by auto
  next
    case True
    have pe: "p \<noteq> e"
      using True Cons.prems(2,3) by (auto simp: ends_in_return_eq)
    let ?v = "inputs (last (instructions (block_at f p))) ! 0"
    let ?f3 = "removeLastInstr (appendPhiInput (appendPhiInput f e (Label p)) e ?v) p"
    let ?phi3 = "phi\<lparr>inputs := inputs phi @ [Label p, ?v]\<rparr>"
    from Cons.prems(1) True have run: "mergeReturns e rest ?f3 = Inr f'"
      by (simp add: mergeReturns_Cons split: if_splits)
    have e3: "instructions (block_at ?f3 e) = xs @ [?phi3]"
      using pe appendPhiInput_snoc [OF appendPhiInput_snoc [OF Cons.prems(2)]] by simp
    have other: "instructions (block_at ?f3 y) = instructions (block_at f y)"
      if "y \<noteq> e" "y \<noteq> p" for y
      using that by simp
    have np: "\<not> isReturn ?phi3" using Cons.prems(3) by (simp add: isReturn_def)
    have eir: "ends_in_return ?f3 q = ends_in_return f q" if "q \<in> set rest" for q
    proof (cases "q = e")
      case True
      then show ?thesis using e3 Cons.prems(2,3) np by (simp add: ends_in_return_eq)
    next
      case False
      moreover have "q \<noteq> p" using that Cons.prems(4) by auto
      ultimately show ?thesis using other by (simp add: ends_in_return_eq)
    qed
    have filt: "filter (ends_in_return ?f3) rest = filter (ends_in_return f) rest"
      using eir by (intro filter_cong) auto
    have vals: "map (\<lambda>q. [Label q, inputs (last (instructions (block_at ?f3 q))) ! 0])
                  (filter (ends_in_return f) rest)
              = map (\<lambda>q. [Label q, inputs (last (instructions (block_at f q))) ! 0])
                  (filter (ends_in_return f) rest)"
    proof (intro map_cong refl)
      fix q assume "q \<in> set (filter (ends_in_return f) rest)"
      then have q: "q \<in> set rest" "ends_in_return f q" by auto
      then have "q \<noteq> e" using Cons.prems(2,3) by (auto simp: ends_in_return_eq)
      moreover have "q \<noteq> p" using q(1) Cons.prems(4) by auto
      ultimately show "[Label q, inputs (last (instructions (block_at ?f3 q))) ! 0]
          = [Label q, inputs (last (instructions (block_at f q))) ! 0]"
        using other by simp
    qed
    from Cons.IH [OF run e3 np] Cons.prems(4) have
      ih1: "instructions (block_at f' e) =
           xs @ [?phi3\<lparr>inputs := inputs ?phi3 @
                   concat (map (\<lambda>q. [Label q, inputs (last (instructions (block_at ?f3 q))) ! 0])
                             (filter (ends_in_return ?f3) rest))\<rparr>]" and
      ih2: "\<forall>y. y \<noteq> e \<longrightarrow> instructions (block_at f' y) =
              (if y \<in> set rest \<and> ends_in_return ?f3 y
               then butlast (instructions (block_at ?f3 y))
               else instructions (block_at ?f3 y))"
      by simp_all
    have g1: "instructions (block_at f' e) =
           xs @ [phi\<lparr>inputs := inputs phi @
                   concat (map (\<lambda>p. [Label p, inputs (last (instructions (block_at f p))) ! 0])
                             (filter (ends_in_return f) (p # rest)))\<rparr>]"
      using ih1 [unfolded filt vals] True by simp
    have g2: "instructions (block_at f' y) =
              (if y \<in> set (p # rest) \<and> ends_in_return f y
               then butlast (instructions (block_at f y))
               else instructions (block_at f y))" if "y \<noteq> e" for y
    proof (cases "y = p")
      case True
      then have "y \<notin> set rest" using Cons.prems(4) by simp
      with ih2 that True \<open>ends_in_return f p\<close> show ?thesis by simp
    next
      case False
      then show ?thesis using ih2 that eir [of y] other [of y] by auto
    qed
    from g1 g2 show ?thesis by blast
  qed
qed

text \<open>What holds of the loop whether or not a predecessor is listed twice.\<close>

lemma mergeReturns_general:
  assumes "mergeReturns e ps f = Inr f'"
    and "instructions (block_at f e) = xs @ [phi]"
    and "\<not> isReturn phi"
  shows "(\<exists>ops. instructions (block_at f' e) = xs @ [phi\<lparr>inputs := inputs phi @ ops\<rparr>])
       \<and> (\<forall>y. y \<noteq> e \<longrightarrow>
            (\<exists>m. instructions (block_at f' y) = take m (instructions (block_at f y))))
       \<and> (\<forall>y. y \<noteq> e \<and> y \<notin> set ps \<longrightarrow>
            instructions (block_at f' y) = instructions (block_at f y))
       \<and> (\<forall>y \<in> set ps. y \<noteq> e \<longrightarrow> returns_last (instructions (block_at f y)) \<longrightarrow>
            (\<forall>i \<in> set (instructions (block_at f' y)). \<not> isReturn i))"
  using assms
proof (induction ps arbitrary: f phi)
  case Nil
  have "phi\<lparr>inputs := inputs phi @ []\<rparr> = phi" by simp
  then have "\<exists>ops. xs @ [phi] = xs @ [phi\<lparr>inputs := inputs phi @ ops\<rparr>]" by metis
  moreover have "\<exists>m. instructions (block_at f y) = take m (instructions (block_at f y))" for y
    by (rule exI [of _ "length (instructions (block_at f y))"]) simp
  ultimately show ?case using Nil by simp
next
  case (Cons p rest)
  have nr: "\<forall>i \<in> set zs. \<not> isReturn i" if "returns_last zs" "\<not> (zs \<noteq> [] \<and> isReturn (last zs))"
    for zs
  proof (cases zs rule: rev_cases)
    case Nil
    then show ?thesis by simp
  next
    case (snoc ys z)
    then show ?thesis using that by (auto simp: returns_last_def)
  qed
  have pre: "\<forall>i \<in> set (take m zs). \<not> isReturn i" if "\<forall>i \<in> set zs. \<not> isReturn i" for m zs
    using that by (meson in_set_takeD)
  show ?case
  proof (cases "ends_in_return f p")
    case False
    with Cons.prems have run: "mergeReturns e rest f = Inr f'" by (simp add: mergeReturns_Cons)
    note ih = Cons.IH [OF run Cons.prems(2,3)]
    have "\<forall>i \<in> set (instructions (block_at f' p)). \<not> isReturn i"
      if pne: "p \<noteq> e" and rl: "returns_last (instructions (block_at f p))"
    proof -
      have a: "\<forall>i \<in> set (instructions (block_at f p)). \<not> isReturn i"
        using nr [OF rl] False by (simp add: ends_in_return_eq)
      obtain m where
        "instructions (block_at f' p) = take m (instructions (block_at f p))"
        using ih pne by blast
      then show ?thesis using pre [OF a] by simp
    qed
    with ih show ?thesis by auto
  next
    case True
    have pe: "p \<noteq> e"
      using True Cons.prems(2,3) by (auto simp: ends_in_return_eq)
    let ?v = "inputs (last (instructions (block_at f p))) ! 0"
    let ?f3 = "removeLastInstr (appendPhiInput (appendPhiInput f e (Label p)) e ?v) p"
    let ?phi3 = "phi\<lparr>inputs := inputs phi @ [Label p, ?v]\<rparr>"
    from Cons.prems(1) True have run: "mergeReturns e rest ?f3 = Inr f'"
      by (simp add: mergeReturns_Cons split: if_splits)
    have e3: "instructions (block_at ?f3 e) = xs @ [?phi3]"
      using pe appendPhiInput_snoc [OF appendPhiInput_snoc [OF Cons.prems(2)]] by simp
    have other: "instructions (block_at ?f3 y) = instructions (block_at f y)"
      if "y \<noteq> e" "y \<noteq> p" for y
      using that by simp
    have at_p: "instructions (block_at ?f3 p) = butlast (instructions (block_at f p))"
      using pe by simp
    have np: "\<not> isReturn ?phi3" using Cons.prems(3) by (simp add: isReturn_def)
    note ih = Cons.IH [OF run e3 np]
    from ih obtain ops where
      "instructions (block_at f' e) = xs @ [?phi3\<lparr>inputs := inputs ?phi3 @ ops\<rparr>]"
      by blast
    then have "instructions (block_at f' e)
        = xs @ [phi\<lparr>inputs := inputs phi @ ([Label p, ?v] @ ops)\<rparr>]"
      by simp
    then have g1: "\<exists>ops. instructions (block_at f' e) = xs @ [phi\<lparr>inputs := inputs phi @ ops\<rparr>]"
      by blast
    have g2: "\<exists>m. instructions (block_at f' y) = take m (instructions (block_at f y))"
      if yne: "y \<noteq> e" for y
    proof -
      obtain m where m: "instructions (block_at f' y) = take m (instructions (block_at ?f3 y))"
        using ih yne by blast
      show ?thesis
      proof (cases "y = p")
        case True
        have "take m (butlast zs) = take (min m (length zs - 1)) zs" for zs :: "instr list"
          by (simp add: butlast_conv_take)
        then show ?thesis using m True at_p by metis
      next
        case False
        then show ?thesis using m other yne by auto
      qed
    qed
    have g3: "instructions (block_at f' y) = instructions (block_at f y)"
      if "y \<noteq> e" "y \<notin> set (p # rest)" for y
      using ih that other [of y] by auto
    have g4: "\<forall>i \<in> set (instructions (block_at f' y)). \<not> isReturn i"
      if "y \<in> set (p # rest)" "y \<noteq> e" "returns_last (instructions (block_at f y))" for y
    proof (cases "y = p")
      case True
      have a: "\<forall>i \<in> set (instructions (block_at ?f3 p)). \<not> isReturn i"
        using that(3) True at_p by (simp add: returns_last_def)
      obtain m where
        "instructions (block_at f' p) = take m (instructions (block_at ?f3 p))"
        using ih pe by blast
      then show ?thesis using pre [OF a] True by simp
    next
      case False
      then have "y \<in> set rest" using that(1) by simp
      moreover have "returns_last (instructions (block_at ?f3 y))"
        using that False other by simp
      ultimately show ?thesis using ih that(2) by blast
    qed
    from g1 g2 g3 g4 show ?thesis by blast
  qed
qed

lemma mergeReturns_success:
  assumes "\<forall>p \<in> set ps. \<forall>i \<in> set (instructions (block_at f p)). isReturn i \<longrightarrow> inputs i \<noteq> []"
  shows "\<exists>f'. mergeReturns e ps f = Inr f'"
  using assms
proof (induction ps arbitrary: f)
  case Nil
  then show ?case by simp
next
  case (Cons p rest)
  show ?case
  proof (cases "ends_in_return f p")
    case False
    then show ?thesis using Cons by (simp add: mergeReturns_Cons)
  next
    case True
    let ?v = "inputs (last (instructions (block_at f p))) ! 0"
    let ?f3 = "removeLastInstr (appendPhiInput (appendPhiInput f e (Label p)) e ?v) p"
    have ne: "inputs (last (instructions (block_at f p))) \<noteq> []"
      using True Cons.prems by (auto simp: ends_in_return_eq)
    have keep: "\<forall>i \<in> set (instructions (block_at ?f3 q)). isReturn i \<longrightarrow> inputs i \<noteq> []"
      if "q \<in> set rest" for q
    proof -
      have base: "\<forall>i \<in> set (instructions (block_at f q)). isReturn i \<longrightarrow> inputs i \<noteq> []"
        using Cons.prems that by simp
      have app: "\<forall>i \<in> set (instructions (block_at (appendPhiInput g e opnd) q)).
                   isReturn i \<longrightarrow> inputs i \<noteq> []"
        if "\<forall>i \<in> set (instructions (block_at g q)). isReturn i \<longrightarrow> inputs i \<noteq> []"
        for g opnd
      proof (cases "q = e \<and> instructions (block_at g e) \<noteq> []")
        case True
        then obtain zs z where zs: "instructions (block_at g e) = zs @ [z]"
          by (metis rev_exhaust)
        show ?thesis
          using that True appendPhiInput_snoc [OF zs, of opnd] zs by auto
      next
        case False
        then show ?thesis using that by (auto simp: appendPhiInput_def split: list.splits)
      qed
      have "\<forall>i \<in> set (instructions
              (block_at (appendPhiInput (appendPhiInput f e (Label p)) e ?v) q)).
            isReturn i \<longrightarrow> inputs i \<noteq> []"
        by (intro app base)
      then show ?thesis by (auto dest: in_set_butlastD)
    qed
    then obtain f' where "mergeReturns e rest ?f3 = Inr f'" using Cons.IH by blast
    then show ?thesis using True ne by (simp add: mergeReturns_Cons)
  qed
qed

section \<open>Splicing\<close>

lemma fold_max_ge: "(m::nat) \<le> fold max xs m \<and> (\<forall>x \<in> set xs. x \<le> fold max xs m)"
proof (induction xs arbitrary: m)
  case Nil
  show ?case by simp
next
  case (Cons y ys)
  have "max y m \<le> fold max ys (max y m)" and "\<forall>x \<in> set ys. x \<le> fold max ys (max y m)"
    using Cons.IH [of "max y m"] by simp_all
  then show ?case by auto
qed

lemma fresh_bid_gt: "x \<in> set (basicblocks f) \<Longrightarrow> x < fresh_bid f"
  using fold_max_ge [of 0 "basicblocks f"] by (auto simp: fresh_bid_def less_Suc_eq_le)

lemma index_of_less: "a \<in> set xs \<Longrightarrow> index_of a xs < length xs"
  unfolding index_of_def by (induction xs) auto

lemma insert_after_conv:
  "a \<in> set xs \<Longrightarrow>
     insert_after a new xs =
       take (Suc (index_of a xs)) xs @ new @ drop (Suc (index_of a xs)) xs"
  unfolding index_of_def by (induction xs) auto

lemma set_insert_after: "a \<in> set xs \<Longrightarrow> set (insert_after a new xs) = set xs \<union> set new"
  by (induction xs) auto

lemma index_of_insert_after:
  "a \<in> set xs \<Longrightarrow> index_of a (insert_after a new xs) = index_of a xs"
  unfolding index_of_def by (induction xs) auto

lemma length_insert_after:
  "a \<in> set xs \<Longrightarrow> length (insert_after a new xs) = length xs + length new"
  by (induction xs) auto

lemma nth_insert_after:
  assumes "a \<in> set xs" "k < length new"
  shows "insert_after a new xs ! (Suc (index_of a xs) + k) = new ! k"
proof -
  have "length (take (Suc (index_of a xs)) xs) = Suc (index_of a xs)"
    using index_of_less [OF assms(1)] by simp
  then show ?thesis
    using assms(2) by (simp add: insert_after_conv [OF assms(1)] nth_append)
qed

lemma splitBefore_facts:
  assumes "a \<in> set (basicblocks F)"
  shows "\<exists>F1. splitBefore F a idx = Inr (F1, fresh_bid F) \<and>
           basicblocks F1 = insert_after a [fresh_bid F] (basicblocks F) \<and>
           instructions (block_at F1 a) = take idx (instructions (block_at F a)) \<and>
           instructions (block_at F1 (fresh_bid F)) = drop idx (instructions (block_at F a))"
  using assms fresh_bid_gt [OF assms] by (simp add: splitBefore_def Let_def)

lemma copyFrom_facts:
  assumes a: "a \<in> set (basicblocks F1)" and b: "b \<in> set (basicblocks F1)"
    and ne: "basicblocks callee \<noteq> []"
  shows "\<exists>F2. copyFrom F1 callee a b
            = Inr (F2, Suc (index_of a (basicblocks F1)),
                   Suc (index_of a (basicblocks F1)) + length (basicblocks callee)) \<and>
           basicblocks F2 =
             insert_after a (map (\<lambda>x. fresh_bid F1 + x) (basicblocks callee)) (basicblocks F1) \<and>
           (\<forall>x. instructions (block_at F2 (fresh_bid F1 + x)) =
                  map (copy_instr (fresh_bid F1) (fresh_iid F1)) (instructions (block_at callee x))) \<and>
           (\<forall>x. predecessors (block_at F2 (fresh_bid F1 + x)) =
                  map (\<lambda>p. fresh_bid F1 + p) (predecessors (block_at callee x)) @
                  (if x = hd (basicblocks callee) then [a] else [])) \<and>
           (\<forall>x. successors (block_at F2 (fresh_bid F1 + x)) =
                  map (\<lambda>p. fresh_bid F1 + p) (successors (block_at callee x)) @
                  (if x = last (basicblocks callee) then [b] else [])) \<and>
           (\<forall>y. y < fresh_bid F1 \<longrightarrow>
                  instructions (block_at F2 y) = instructions (block_at F1 y))"
proof -
  have lt: "a < fresh_bid F1" "b < fresh_bid F1"
    using fresh_bid_gt a b by auto
  have na: "fresh_bid F1 + x \<noteq> a" "fresh_bid F1 + x \<noteq> b" for x
    using lt by auto
  show ?thesis
    using a ne lt na
    by (simp add: copyFrom_def Let_def copy_block_def)
qed

section \<open>The two stages on a state\<close>

lemma transplanted_nth:
  "y \<in> set (transplanted s) \<Longrightarrow>
     \<exists>k \<in> set [callee_start s ..< callee_end s]. y = basicblocks (caller s) ! k"
  by (auto simp: transplanted_def)

lemma resolveArguments_range:
  assumes len: "callee_end s \<le> length (basicblocks (caller s))"
    and bind: "\<forall>y \<in> set (transplanted s). \<forall>i \<in> set (instructions (block_at (caller s) y)).
                 isLoadArg i \<longrightarrow> bindable (arguments s) i"
  shows "resolveArguments s = Inl JitDCheckFailed \<or>
     (\<exists>F3. resolveArguments s = Inr (s\<lparr>caller := F3\<rparr>) \<and>
        basicblocks F3 = basicblocks (caller s) \<and>
        (\<forall>y. predecessors (block_at F3 y) = predecessors (block_at (caller s) y) \<and>
             successors (block_at F3 y) = successors (block_at (caller s) y)) \<and>
        (\<forall>y. y \<notin> set (transplanted s) \<longrightarrow>
             instructions (block_at F3 y) = instructions (block_at (caller s) y)) \<and>
        (\<forall>y \<in> set (transplanted s). \<forall>i \<in> set (instructions (block_at F3 y)). \<not> isLoadArg i) \<and>
        (\<forall>y. instructions (block_at (caller s) y) = [] \<longrightarrow> instructions (block_at F3 y) = []) \<and>
        (\<forall>y. returns_last (instructions (block_at (caller s) y)) \<longrightarrow>
             returns_last (instructions (block_at F3 y))) \<and>
        (\<forall>y. \<forall>i \<in> set (instructions (block_at F3 y)). isReturn i \<longrightarrow>
             (\<exists>x \<in> set (instructions (block_at (caller s) y)).
                isReturn x \<and> length (inputs x) = length (inputs i))))"
proof (cases "resolveBlocks (arguments s) [callee_start s ..< callee_end s] Map.empty (caller s)")
  case (Inl e)
  have "\<forall>k \<in> set [callee_start s ..< callee_end s]. k < length (basicblocks (caller s))"
    using len by auto
  moreover have "\<forall>k \<in> set [callee_start s ..< callee_end s].
      \<forall>x \<in> set (instructions (block_at (caller s) (basicblocks (caller s) ! k))).
        isLoadArg x \<longrightarrow> bindable (arguments s) x"
    using bind by (simp add: transplanted_def)
  ultimately have "e = JitDCheckFailed" using resolveBlocks_failure [OF Inl] by blast
  then show ?thesis using Inl by (simp add: resolveArguments_def)
next
  case (Inr p)
  then obtain vm F3 where
    run: "resolveBlocks (arguments s) [callee_start s ..< callee_end s] Map.empty (caller s)
            = Inr (vm, F3)"
    by (cases p) auto
  have res: "resolveArguments s = Inr (s\<lparr>caller := F3\<rparr>)"
    using run by (simp add: resolveArguments_def)
  note frame = resolveBlocks_frame [OF run]
  have outside: "instructions (block_at F3 y) = instructions (block_at (caller s) y)"
    if "y \<notin> set (transplanted s)" for y
    using frame that by (simp add: transplanted_def)
  have clean: "\<not> isLoadArg i"
    if "y \<in> set (transplanted s)" "i \<in> set (instructions (block_at F3 y))" for y i
    using transplanted_nth [OF that(1)] resolveBlocks_no_LoadArg [OF run] that(2) by blast
  have r_nil: "instructions (block_at (caller s) y) = [] \<longrightarrow> instructions (block_at F3 y) = []"
    for y
    by (rule resolveBlocks_rel [where R = "\<lambda>xs ys. xs = [] \<longrightarrow> ys = []", OF _ _ _ run]) auto
  have r_last: "returns_last (instructions (block_at (caller s) y)) \<longrightarrow>
      returns_last (instructions (block_at F3 y))" for y
    by (rule resolveBlocks_rel
          [where R = "\<lambda>xs ys. returns_last xs \<longrightarrow> returns_last ys", OF _ _ _ run])
       (auto simp: returns_last_def dest: resolveInstrs_returns_last)
  have r_orig: "\<forall>i \<in> set (instructions (block_at F3 y)). isReturn i \<longrightarrow>
             (\<exists>x \<in> set (instructions (block_at (caller s) y)).
                isReturn x \<and> length (inputs x) = length (inputs i))" for y
  proof (rule resolveBlocks_rel
          [where R = "\<lambda>xs ys. \<forall>i \<in> set ys. isReturn i \<longrightarrow>
             (\<exists>x \<in> set xs. isReturn x \<and> length (inputs x) = length (inputs i))",
           OF _ _ _ run])
    fix xs :: "instr list"
    show "\<forall>i \<in> set xs. isReturn i \<longrightarrow>
        (\<exists>x \<in> set xs. isReturn x \<and> length (inputs x) = length (inputs i))"
      by blast
  next
    fix xs ys zs :: "instr list"
    assume "\<forall>i \<in> set ys. isReturn i \<longrightarrow>
        (\<exists>x \<in> set xs. isReturn x \<and> length (inputs x) = length (inputs i))"
      and "\<forall>i \<in> set zs. isReturn i \<longrightarrow>
        (\<exists>x \<in> set ys. isReturn x \<and> length (inputs x) = length (inputs i))"
    then show "\<forall>i \<in> set zs. isReturn i \<longrightarrow>
        (\<exists>x \<in> set xs. isReturn x \<and> length (inputs x) = length (inputs i))"
      by metis
  next
    fix vm xs vm' ys
    assume "resolveInstrs vm (arguments s) xs = Inr (vm', ys)"
    then show "\<forall>i \<in> set ys. isReturn i \<longrightarrow>
        (\<exists>x \<in> set xs. isReturn x \<and> length (inputs x) = length (inputs i))"
      using resolveInstrs_return_origin by blast
  qed
  from res frame outside clean r_nil r_last r_orig show ?thesis by blast
qed

lemma resolveArguments_returns:
  assumes len: "callee_end s \<le> length (basicblocks (caller s))"
    and bind: "\<forall>y \<in> set (transplanted s). \<forall>i \<in> set (instructions (block_at (caller s) y)).
                 isLoadArg i \<longrightarrow> bindable (arguments s) i"
    and args: "\<forall>a \<in> set (arguments s). isImm a \<or> isLinked a"
  shows "\<exists>s'. resolveArguments s = Inr s'"
proof -
  have "\<forall>k \<in> set [callee_start s ..< callee_end s]. k < length (basicblocks (caller s))"
    using len by auto
  moreover have "\<forall>k \<in> set [callee_start s ..< callee_end s].
      \<forall>x \<in> set (instructions (block_at (caller s) (basicblocks (caller s) ! k))).
        isLoadArg x \<longrightarrow> bindable (arguments s) x"
    using bind by (simp add: transplanted_def)
  ultimately obtain vm F3 where
    "resolveBlocks (arguments s) [callee_start s ..< callee_end s] Map.empty (caller s)
            = Inr (vm, F3)"
    using resolveBlocks_success [of _ "caller s" "arguments s" Map.empty] args by blast
  then show ?thesis by (simp add: resolveArguments_def)
qed

lemma updateCallInstr_ok:
  "call_idx s < length (instructions (block_at f (call_bb s))) \<Longrightarrow>
     updateCallInstr s f g =
       Inr (s\<lparr>caller := setInstructions f (call_bb s)
                  ((instructions (block_at f (call_bb s)))
                     [call_idx s := g (instructions (block_at f (call_bb s)) ! call_idx s)])\<rparr>)"
  by (simp add: updateCallInstr_def Let_def)

lemma getCallInstr_Some:
  "getCallInstr s = Some c \<longleftrightarrow>
     call_idx s < length (instructions (block_at (caller s) (call_bb s))) \<and>
     instructions (block_at (caller s) (call_bb s)) ! call_idx s = c"
  by (auto simp: getCallInstr_def Let_def)




lemmas example_defs =
  inliner_of_def caller_of_def function_of_def mk_block_def mk_instr_def empty_block_def
  env_of_def call_imm7_def call_linked_def call_no_args_def callee_double_def
  callee_two_returns_def callee_void_def callee_bare_return_def callee_empty_def
  inliner_after_return_def

lemmas inliner_defs =
  inlineCall_def getCallInstr_def findFunction_def parseFunction_def getNumInputs_def Let_def
  isInlineable_def checkEntryExitReturn_def getEntryBlock_def checkArguments_def
  checkLoadArg_def isReturn_def isLoadArg_def splitBefore_def copyFrom_def fresh_bid_def
  fresh_iid_def instructions_in_order_def index_of_def copy_block_def copy_instr_def
  resolveArguments_def resolveLoadArg_def setInstructions_def resolveLinkedArgumentsUses_def
  resolveReturnValue_def allocateInstr_def getLastInstr_def appendPhiInput_def
  removeLastInstr_def updateCallInstr_def upt_rec mergeReturns.simps

text \<open>A final return without input operand stays one through \<open>resolveArguments\<close>, and stops
  the loop of \<open>resolveReturnValue\<close>.\<close>

lemma resolveInstrs_last:
  "resolveInstrs vm args xs = Inr (vm', ys) \<Longrightarrow> xs \<noteq> [] \<Longrightarrow> \<not> isLoadArg (last xs) \<Longrightarrow>
     ys \<noteq> [] \<and> opcode (last ys) = opcode (last xs) \<and>
     length (inputs (last ys)) = length (inputs (last xs))"
proof (induction xs arbitrary: vm vm' ys)
  case Nil
  then show ?case by simp
next
  case (Cons i rest)
  show ?case
  proof (cases "rest = []")
    case True
    then have "\<not> isLoadArg i" using Cons.prems(3) by simp
    then show ?thesis using Cons.prems(1) True by auto
  next
    case False
    then have l: "\<not> isLoadArg (last rest)" using Cons.prems(3) by simp
    from Cons.prems(1) obtain vm1 vm2 rest' pre where
      r2: "resolveInstrs vm1 args rest = Inr (vm2, rest')" and ys: "ys = pre @ rest'"
    proof (cases "isLoadArg i")
      case True
      with Cons.prems(1) obtain vm1 kept vm2 rest' where
        "resolveInstrs vm1 args rest = Inr (vm2, rest')"
        "ys = (case kept of None \<Rightarrow> rest' | Some i' \<Rightarrow> i' # rest')"
        by (auto split: sum.splits prod.splits)
      then show ?thesis using that [of vm1 vm2 rest' "case kept of None \<Rightarrow> [] | Some i' \<Rightarrow> [i']"]
        by (cases kept) auto
    next
      case nl: False
      with Cons.prems(1) obtain vm2 rest' where
        "resolveInstrs vm args rest = Inr (vm2, rest')"
        "ys = resolveLinkedArgumentsUses vm i # rest'"
        by (auto split: sum.splits prod.splits)
      then show ?thesis using that [of vm vm2 rest' "[resolveLinkedArgumentsUses vm i]"] by simp
    qed
    from Cons.IH [OF r2 False l] show ?thesis using ys False by simp
  qed
qed

lemma resolveArguments_keeps_bare_return:
  assumes "resolveArguments s = Inr s'"
  shows "keeps_bare_return (instructions (block_at (caller s) y))
           (instructions (block_at (caller s') y))"
proof -
  from assms obtain vm F3 where
    run: "resolveBlocks (arguments s) [callee_start s ..< callee_end s] Map.empty (caller s)
            = Inr (vm, F3)" and s': "s' = s\<lparr>caller := F3\<rparr>"
    by (auto simp: resolveArguments_def split: sum.splits prod.splits)
  have "keeps_bare_return (instructions (block_at (caller s) y)) (instructions (block_at F3 y))"
  proof (rule resolveBlocks_rel [where R = keeps_bare_return, OF _ _ _ run])
    show "keeps_bare_return xs xs" for xs by (simp add: keeps_bare_return_def)
    show "keeps_bare_return xs zs" if "keeps_bare_return xs ys" "keeps_bare_return ys zs"
      for xs ys zs
      using that by (auto simp: keeps_bare_return_def)
    show "keeps_bare_return xs ys" if r: "resolveInstrs vm (arguments s) xs = Inr (vm', ys)"
      for vm xs vm' ys
      unfolding keeps_bare_return_def
    proof
      assume a: "xs \<noteq> [] \<and> isReturn (last xs) \<and> inputs (last xs) = []"
      then have "\<not> isLoadArg (last xs)" by (simp add: isReturn_def isLoadArg_def)
      from resolveInstrs_last [OF r _ this] a
      show "ys \<noteq> [] \<and> isReturn (last ys) \<and> inputs (last ys) = []"
        by (simp add: isReturn_def)
    qed
  qed
  then show ?thesis by (simp add: s')
qed

lemma mergeReturns_bare_return:
  assumes "p \<in> set ps" "p \<noteq> e" "ends_in_return f p"
    "inputs (last (instructions (block_at f p))) = []"
  shows "mergeReturns e ps f = Inl JitCheckFailed"
  using assms
proof (induction ps arbitrary: f)
  case Nil
  then show ?case by simp
next
  case (Cons q rest)
  show ?case
  proof (cases "ends_in_return f q")
    case False
    then have "p \<in> set rest" using Cons.prems(1,3) by auto
    from Cons.IH [OF this Cons.prems(2,3,4)] False show ?thesis
      by (simp add: mergeReturns_Cons)
  next
    case True
    show ?thesis
    proof (cases "inputs (last (instructions (block_at f q))) = []")
      case True
      then show ?thesis using \<open>ends_in_return f q\<close> by (simp add: mergeReturns_Cons)
    next
      case False
      then have qp: "q \<noteq> p" using Cons.prems(4) by auto
      then have pr: "p \<in> set rest" using Cons.prems(1) by simp
      let ?v = "inputs (last (instructions (block_at f q))) ! 0"
      let ?f3 = "removeLastInstr (appendPhiInput (appendPhiInput f e (Label q)) e ?v) q"
      have same: "instructions (block_at ?f3 p) = instructions (block_at f p)"
        using qp Cons.prems(2) by simp
      have "mergeReturns e rest ?f3 = Inl JitCheckFailed"
        using Cons.IH [OF pr Cons.prems(2), of ?f3] Cons.prems(3,4) same
        by (simp add: ends_in_return_eq)
      then show ?thesis using True False by (simp add: mergeReturns_Cons)
    qed
  qed
qed

section \<open>The pass on an inlineable callee\<close>

lemma checkArgumentsLoop_True:
  "checkArgumentsLoop xs args = (True, args') \<Longrightarrow> args' = args @ xs"
  by (induction xs arbitrary: args) (fastforce split: if_splits)+

lemma findFunction_Some_inputs:
  "findFunction env c cache = (Some callee, cache') \<Longrightarrow> inputs c \<noteq> []"
  by (auto simp: findFunction_def getNumInputs_def split: if_splits)

lemma copy_instr_simps [simp]:
  "isReturn (copy_instr b ib i) = isReturn i"
  "isLoadArg (copy_instr b ib i) = isLoadArg i"
  "length (inputs (copy_instr b ib i)) = length (inputs i)"
  "inputs (copy_instr b ib i) = map (copy_operand b ib) (inputs i)"
  by (simp_all add: copy_instr_def isReturn_def isLoadArg_def)

lemma returns_last_map_copy:
  "returns_last (map (copy_instr b ib) xs) = returns_last xs"
  by (auto simp: returns_last_def map_butlast [symmetric])

lemma returns_last_nth:
  "returns_last xs = (\<forall>k < length xs. isReturn (xs ! k) \<longrightarrow> k = length xs - 1)"
proof
  assume r: "returns_last xs"
  show "\<forall>k < length xs. isReturn (xs ! k) \<longrightarrow> k = length xs - 1"
  proof (intro allI impI)
    fix k assume k: "k < length xs" "isReturn (xs ! k)"
    show "k = length xs - 1"
    proof (rule ccontr)
      assume "k \<noteq> length xs - 1"
      then have "k < length (butlast xs)" using k(1) by simp
      then have "butlast xs ! k \<in> set (butlast xs)" by (rule nth_mem)
      moreover have "butlast xs ! k = xs ! k"
        using \<open>k < length (butlast xs)\<close> by (simp add: nth_butlast)
      ultimately show False using r k(2) by (simp add: returns_last_def)
    qed
  qed
next
  assume a: "\<forall>k < length xs. isReturn (xs ! k) \<longrightarrow> k = length xs - 1"
  show "returns_last xs"
    unfolding returns_last_def
  proof
    fix x assume "x \<in> set (butlast xs)"
    then obtain k where k: "k < length (butlast xs)" "butlast xs ! k = x"
      by (auto simp: in_set_conv_nth)
    then have "xs ! k = x" "k < length xs" "k \<noteq> length xs - 1"
      by (simp_all add: nth_butlast)
    then show "\<not> isReturn x" using a by auto
  qed
qed

text \<open>What the three checks give about an accepted callee.\<close>

lemma isInlineable_accepts:
  assumes inl: "isInlineable c callee args0 = (True, args)"
    and inp: "inputs c \<noteq> []"
  shows "basicblocks callee \<noteq> []"
    and "args = args0 @ drop 1 (inputs c)"
    and "instructions (block_at callee (last (basicblocks callee))) = []"
    and "\<forall>x \<in> set (basicblocks callee). returns_last (instructions (block_at callee x))"
    and "\<forall>x \<in> set (basicblocks callee).
           (\<exists>i \<in> set (instructions (block_at callee x)). isReturn i) \<longrightarrow>
           successors (block_at callee x) = [last (basicblocks callee)]"
    and "\<forall>x \<in> set (basicblocks callee). \<forall>i \<in> set (instructions (block_at callee x)).
           isLoadArg i \<longrightarrow> bindable args i"
proof -
  have t: "fst (isInlineable c callee args0)" using inl by simp
  have ce: "checkEntryExitReturn callee"
    and ca: "checkArguments c args0 = (True, args)"
    and cl: "checkLoadArg c callee"
    using inl by (auto simp: isInlineable_def split: if_splits prod.splits)
  from checkEntryExitReturn_True [OF ce] obtain en rest where
    bs: "basicblocks callee = en # rest" and
    cb: "checkBlocks callee en (last (basicblocks callee)) (basicblocks callee)" and
    ex: "instructions (block_at callee (last (basicblocks callee))) = []"
    by blast
  show "basicblocks callee \<noteq> []" using bs by simp
  show args: "args = args0 @ drop 1 (inputs c)"
    using ca checkArgumentsLoop_True by (simp add: checkArguments_def)
  show "instructions (block_at callee (last (basicblocks callee))) = []" by (rule ex)
  have cr: "\<forall>x \<in> set (basicblocks callee).
      \<forall>k < length (instructions (block_at callee x)).
        isReturn (instructions (block_at callee x) ! k) \<longrightarrow>
          k = length (instructions (block_at callee x)) - 1 \<and>
          successors (block_at callee x) = [last (basicblocks callee)]"
    using cb by (simp add: checkBlocks_iff checkReturns_iff)
  show "\<forall>x \<in> set (basicblocks callee). returns_last (instructions (block_at callee x))"
    using cr by (simp add: returns_last_nth)
  show "\<forall>x \<in> set (basicblocks callee).
           (\<exists>i \<in> set (instructions (block_at callee x)). isReturn i) \<longrightarrow>
           successors (block_at callee x) = [last (basicblocks callee)]"
    using cr by (metis in_set_conv_nth)
  let ?n = "(getNumInputs c + 2 ^ 64 - 1) mod 2 ^ 64"
  obtain fl where run: "checkLoadArgInstrs ?n True (instructions_in_order callee) = Some fl"
    using cl by (auto simp: checkLoadArg_def checkLoadArgBlocks_flat instructions_in_order_def)
  have n_le: "?n \<le> length (inputs c) - 1"
  proof -
    obtain m where m: "length (inputs c) = Suc m"
      using inp by (cases "inputs c") auto
    have "(Suc m + 2 ^ 64 - 1) mod 2 ^ 64 = m mod (2 ^ 64 :: nat)" by simp
    also have "\<dots> \<le> m" by (rule mod_less_eq_dividend)
    finally show ?thesis by (simp add: getNumInputs_def m)
  qed
  show "\<forall>x \<in> set (basicblocks callee). \<forall>i \<in> set (instructions (block_at callee x)).
           isLoadArg i \<longrightarrow> bindable args i"
  proof (intro ballI impI)
    fix x i assume x: "x \<in> set (basicblocks callee)"
      and i: "i \<in> set (instructions (block_at callee x))" "isLoadArg i"
    have "i \<in> set (instructions_in_order callee)"
      using x i(1) by (auto simp: instructions_in_order_def)
    from checkLoadArgInstrs_good [OF run this i(2)] obtain c' where
      "inputs i \<noteq> []" "inputs i ! 0 = Imm c'" "unat c' < ?n" by blast
    then show "bindable args i" using n_le args by (auto simp: bindable_def)
  qed
qed

lemma inlineCall_stages:
  assumes call: "getCallInstr st = Some c"
    and res: "findFunction env c (name_to_function st) = (Some callee, cache)"
    and inl: "isInlineable c callee (arguments st) = (True, args)"
    and bb: "call_bb st \<in> set (basicblocks (caller st))"
    and ne: "basicblocks callee \<noteq> []"
  shows "\<exists>F2 base ibase.
      inlineCall env st =
        (case resolveArguments
                (st\<lparr>name_to_function := cache, arguments := args, caller := F2,
                    call_bb := fresh_bid (caller st), call_idx := 0,
                    callee_start := Suc (index_of (call_bb st) (basicblocks (caller st))),
                    callee_end := Suc (index_of (call_bb st) (basicblocks (caller st)))
                                    + length (basicblocks callee)\<rparr>) of
           Inl e \<Rightarrow> Inl e
         | Inr st4 \<Rightarrow>
             (case resolveReturnValue st4 of Inl e \<Rightarrow> Inl e | Inr st5 \<Rightarrow> Inr (True, st5)))
      \<and> call_bb st < base \<and> fresh_bid (caller st) < base
      \<and> call_bb st \<noteq> fresh_bid (caller st)
      \<and> Suc (index_of (call_bb st) (basicblocks (caller st))) + length (basicblocks callee)
          \<le> length (basicblocks F2)
      \<and> (\<forall>k < length (basicblocks callee).
            basicblocks F2 ! (Suc (index_of (call_bb st) (basicblocks (caller st))) + k)
              = base + basicblocks callee ! k)
      \<and> (\<forall>x. instructions (block_at F2 (base + x)) =
               map (copy_instr base ibase) (instructions (block_at callee x)))
      \<and> (\<forall>x. predecessors (block_at F2 (base + x)) =
               map (\<lambda>p. base + p) (predecessors (block_at callee x)) @
               (if x = hd (basicblocks callee) then [call_bb st] else []))
      \<and> instructions (block_at F2 (fresh_bid (caller st)))
          = drop (call_idx st) (instructions (block_at (caller st) (call_bb st)))
      \<and> instructions (block_at F2 (call_bb st))
          = take (call_idx st) (instructions (block_at (caller st) (call_bb st)))"
proof -
  let ?F = "caller st" and ?a = "call_bb st" and ?b = "fresh_bid (caller st)"
  let ?cb = "basicblocks callee"
  from splitBefore_facts [OF bb, of "call_idx st"] obtain F1 where
    sp: "splitBefore ?F ?a (call_idx st) = Inr (F1, ?b)" and
    b1: "basicblocks F1 = insert_after ?a [?b] (basicblocks ?F)" and
    ia: "instructions (block_at F1 ?a) = take (call_idx st) (instructions (block_at ?F ?a))" and
    ib: "instructions (block_at F1 ?b) = drop (call_idx st) (instructions (block_at ?F ?a))"
    by blast
  have a1: "?a \<in> set (basicblocks F1)" and bin: "?b \<in> set (basicblocks F1)"
    using bb by (simp_all add: b1 set_insert_after)
  have io: "index_of ?a (basicblocks F1) = index_of ?a (basicblocks ?F)"
    using bb by (simp add: b1 index_of_insert_after)
  let ?base = "fresh_bid F1" and ?ibase = "fresh_iid F1"
  let ?cs = "Suc (index_of ?a (basicblocks ?F))"
  from copyFrom_facts [OF a1 bin ne] obtain F2 where
    cp: "copyFrom F1 callee ?a ?b = Inr (F2, ?cs, ?cs + length ?cb)" and
    b2: "basicblocks F2 = insert_after ?a (map (\<lambda>x. ?base + x) ?cb) (basicblocks F1)" and
    i2: "\<forall>x. instructions (block_at F2 (?base + x)) =
              map (copy_instr ?base ?ibase) (instructions (block_at callee x))" and
    p2: "\<forall>x. predecessors (block_at F2 (?base + x)) =
              map (\<lambda>p. ?base + p) (predecessors (block_at callee x)) @
              (if x = hd ?cb then [?a] else [])" and
    low: "\<forall>y. y < ?base \<longrightarrow> instructions (block_at F2 y) = instructions (block_at F1 y)"
    unfolding io by blast
  have lt: "?a < ?base" "?b < ?base" using fresh_bid_gt a1 bin by auto
  have ab: "?a \<noteq> ?b" using fresh_bid_gt [OF bb] by simp
  have len: "?cs + length ?cb \<le> length (basicblocks F2)"
    using index_of_less [OF bb] bb a1 by (simp add: b2 b1 length_insert_after)
  have nth: "\<forall>k < length ?cb. basicblocks F2 ! (?cs + k) = ?base + ?cb ! k"
  proof (intro allI impI)
    fix k assume k: "k < length ?cb"
    have "insert_after ?a (map (\<lambda>x. ?base + x) ?cb) (basicblocks F1)
            ! (Suc (index_of ?a (basicblocks F1)) + k) = map (\<lambda>x. ?base + x) ?cb ! k"
      using k by (intro nth_insert_after [OF a1]) simp
    then show "basicblocks F2 ! (?cs + k) = ?base + ?cb ! k"
      using k by (simp add: b2 io)
  qed
  have run: "inlineCall env st =
        (case resolveArguments
                (st\<lparr>name_to_function := cache, arguments := args, caller := F2,
                    call_bb := ?b, call_idx := 0, callee_start := ?cs,
                    callee_end := ?cs + length ?cb\<rparr>) of
           Inl e \<Rightarrow> Inl e
         | Inr st4 \<Rightarrow>
             (case resolveReturnValue st4 of Inl e \<Rightarrow> Inl e | Inr st5 \<Rightarrow> Inr (True, st5)))"
    using call res inl sp cp by (simp add: inlineCall_def)
  have ib2: "instructions (block_at F2 ?b)
      = drop (call_idx st) (instructions (block_at ?F ?a))"
    using low lt(2) ib by simp
  have ia2: "instructions (block_at F2 ?a)
      = take (call_idx st) (instructions (block_at ?F ?a))"
    using low lt(1) ia by simp
  show ?thesis
    apply (rule exI [of _ F2], rule exI [of _ ?base], rule exI [of _ ?ibase])
    using run lt ab len nth i2 p2 ib2 ia2 by simp
qed

text \<open>\<open>resolveReturnValue\<close> on a state whose epilogue is empty and whose call instruction
  stands outside the epilogue and its predecessors.\<close>

lemma resolveReturnValue_range:
  assumes idx: "0 < callee_end s" "callee_end s - 1 < length (basicblocks (caller s))"
    and epi: "epilogue = basicblocks (caller s) ! (callee_end s - 1)"
    and empty: "instructions (block_at (caller s) epilogue) = []"
    and valid: "call_idx s < length (instructions (block_at (caller s) (call_bb s)))"
    and cb: "call_bb s \<noteq> epilogue"
      "call_bb s \<notin> set (predecessors (block_at (caller s) epilogue))"
  shows "(resolveReturnValue s = Inl JitCheckFailed \<or>
     (\<exists>s'. resolveReturnValue s = Inr s' \<and>
        basicblocks (caller s') = basicblocks (caller s) \<and>
        callee_start s' = callee_start s \<and> callee_end s' = callee_end s \<and>
        (\<forall>i \<in> set (instructions (block_at (caller s') epilogue)). opcode i = kPhi) \<and>
        (\<forall>y. y \<noteq> epilogue \<and> y \<noteq> call_bb s \<longrightarrow>
           (\<exists>m. instructions (block_at (caller s') y)
                  = take m (instructions (block_at (caller s) y)))) \<and>
        (\<forall>y \<in> set (predecessors (block_at (caller s) epilogue)). y \<noteq> epilogue \<longrightarrow>
           returns_last (instructions (block_at (caller s) y)) \<longrightarrow>
           (\<forall>i \<in> set (instructions (block_at (caller s') y)). \<not> isReturn i))))
   \<and> ((\<forall>p \<in> set (predecessors (block_at (caller s) epilogue)).
         \<forall>i \<in> set (instructions (block_at (caller s) p)). isReturn i \<longrightarrow> inputs i \<noteq> [])
       \<longrightarrow> (\<exists>s'. resolveReturnValue s = Inr s'))"
proof -
  let ?f = "caller s"
  let ?ps = "predecessors (block_at ?f epilogue)"
  let ?phi = "\<lparr>iid = fresh_iid ?f, opcode = kPhi, inputs = [], output_operand = OutVReg\<rparr>"
  let ?f1 = "allocateInstr ?f epilogue ?phi"
  have e1: "instructions (block_at ?f1 epilogue) = [] @ [?phi]" using empty by simp
  have np: "\<not> isReturn ?phi" by (simp add: isReturn_def)
  have same: "instructions (block_at ?f1 p) = instructions (block_at ?f p)" if "p \<noteq> epilogue" for p
    using that by simp
  have unfold: "resolveReturnValue s =
      (case mergeReturns epilogue ?ps ?f1 of
         Inl e \<Rightarrow> Inl e
       | Inr f2 \<Rightarrow>
           (case getLastInstr f2 epilogue of
              None \<Rightarrow> Inl InvalidPointer
            | Some phi_instr \<Rightarrow>
                if getNumInputs phi_instr = 0
                then updateCallInstr s (removeLastInstr f2 epilogue) (\<lambda>c. c\<lparr>opcode := kNop\<rparr>)
                else updateCallInstr s f2
                       (\<lambda>c. c\<lparr>opcode := kMove, inputs := [Linked (iid phi_instr)]\<rparr>)))"
    using idx unfolding epi
    by (auto simp: resolveReturnValue_def Let_def split: sum.splits option.splits)
  have after: "\<exists>s'. resolveReturnValue s = Inr s' \<and>
        basicblocks (caller s') = basicblocks (caller s) \<and>
        callee_start s' = callee_start s \<and> callee_end s' = callee_end s \<and>
        (\<forall>i \<in> set (instructions (block_at (caller s') epilogue)). opcode i = kPhi) \<and>
        (\<forall>y. y \<noteq> epilogue \<and> y \<noteq> call_bb s \<longrightarrow>
           (\<exists>m. instructions (block_at (caller s') y)
                  = take m (instructions (block_at (caller s) y)))) \<and>
        (\<forall>y \<in> set ?ps. y \<noteq> epilogue \<longrightarrow>
           returns_last (instructions (block_at (caller s) y)) \<longrightarrow>
           (\<forall>i \<in> set (instructions (block_at (caller s') y)). \<not> isReturn i))"
    if run: "mergeReturns epilogue ?ps ?f1 = Inr f2" for f2
  proof -
    note g = mergeReturns_general [OF run e1 np]
    note fr = mergeReturns_frame [OF run]
    from g obtain ops where e2: "instructions (block_at f2 epilogue)
        = [?phi\<lparr>inputs := inputs ?phi @ ops\<rparr>]"
      by auto
    let ?phi2 = "?phi\<lparr>inputs := inputs ?phi @ ops\<rparr>"
    have last2: "getLastInstr f2 epilogue = Some ?phi2"
      using e2 by (simp add: getLastInstr_eq)
    have cb2: "instructions (block_at f2 (call_bb s)) = instructions (block_at ?f (call_bb s))"
      using g cb same by auto
    then have valid2: "call_idx s < length (instructions (block_at f2 (call_bb s)))"
      using valid by simp
    have valid3: "call_idx s < length (instructions (block_at (removeLastInstr f2 epilogue)
                                                         (call_bb s)))"
      using valid2 cb(1) by simp
    define fx where "fx = (if getNumInputs ?phi2 = 0 then removeLastInstr f2 epilogue else f2)"
    define gx where "gx = (if getNumInputs ?phi2 = 0 then (\<lambda>c::instr. c\<lparr>opcode := kNop\<rparr>)
         else (\<lambda>c. c\<lparr>opcode := kMove, inputs := [Linked (iid ?phi2)]\<rparr>))"
    define s' where "s' = s\<lparr>caller := setInstructions fx (call_bb s)
                  ((instructions (block_at fx (call_bb s)))
                     [call_idx s := gx (instructions (block_at fx (call_bb s)) ! call_idx s)])\<rparr>"
    have res: "resolveReturnValue s = Inr s'"
      unfolding unfold s'_def fx_def gx_def
      using run last2 updateCallInstr_ok [OF valid2] updateCallInstr_ok [OF valid3]
      by simp
    have bbs: "basicblocks (caller s') = basicblocks (caller s)"
      using fr by (simp add: s'_def fx_def)
    have se: "callee_start s' = callee_start s" "callee_end s' = callee_end s"
      by (simp_all add: s'_def)
    have fx_e: "instructions (block_at fx epilogue) = [?phi2] \<or>
        instructions (block_at fx epilogue) = []"
      using e2 by (simp add: fx_def)
    have fx_o: "instructions (block_at fx y) = instructions (block_at f2 y)"
      if "y \<noteq> epilogue" for y
      using that by (simp add: fx_def)
    have s_e: "instructions (block_at (caller s') epilogue) = instructions (block_at fx epilogue)"
      using cb(1) by (simp add: s'_def)
    have s_o: "instructions (block_at (caller s') y) = instructions (block_at f2 y)"
      if "y \<noteq> epilogue" "y \<noteq> call_bb s" for y
      using that fx_o by (simp add: s'_def)
    have c1: "\<forall>i \<in> set (instructions (block_at (caller s') epilogue)). opcode i = kPhi"
      using fx_e s_e by auto
    have c2: "\<exists>m. instructions (block_at (caller s') y)
                  = take m (instructions (block_at (caller s) y))"
      if "y \<noteq> epilogue \<and> y \<noteq> call_bb s" for y
      using g that s_o same by auto
    have c3: "\<forall>i \<in> set (instructions (block_at (caller s') y)). \<not> isReturn i"
      if y: "y \<in> set ?ps" "y \<noteq> epilogue" "returns_last (instructions (block_at (caller s) y))"
      for y
    proof -
      have "y \<noteq> call_bb s" using y(1) cb(2) by auto
      moreover have "y \<in> set (predecessors (block_at ?f1 epilogue))" using y(1) by simp
      moreover have "returns_last (instructions (block_at ?f1 y))" using y(2,3) same by simp
      ultimately show ?thesis using g y(2) s_o by (metis allocateInstr_simps(2))
    qed
    from res bbs se c1 c2 c3 show ?thesis by blast
  qed
  have part1: "resolveReturnValue s = Inl JitCheckFailed \<or>
     (\<exists>s'. resolveReturnValue s = Inr s' \<and>
        basicblocks (caller s') = basicblocks (caller s) \<and>
        callee_start s' = callee_start s \<and> callee_end s' = callee_end s \<and>
        (\<forall>i \<in> set (instructions (block_at (caller s') epilogue)). opcode i = kPhi) \<and>
        (\<forall>y. y \<noteq> epilogue \<and> y \<noteq> call_bb s \<longrightarrow>
           (\<exists>m. instructions (block_at (caller s') y)
                  = take m (instructions (block_at (caller s) y)))) \<and>
        (\<forall>y \<in> set ?ps. y \<noteq> epilogue \<longrightarrow>
           returns_last (instructions (block_at (caller s) y)) \<longrightarrow>
           (\<forall>i \<in> set (instructions (block_at (caller s') y)). \<not> isReturn i)))"
  proof (cases "mergeReturns epilogue ?ps ?f1")
    case (Inl e)
    then have "e = JitCheckFailed" by (rule mergeReturns_failure)
    then show ?thesis using Inl unfold by simp
  next
    case (Inr f2)
    from after [OF this] show ?thesis by blast
  qed
  have part2: "\<exists>s'. resolveReturnValue s = Inr s'"
    if h: "\<forall>p \<in> set ?ps. \<forall>i \<in> set (instructions (block_at ?f p)).
             isReturn i \<longrightarrow> inputs i \<noteq> []"
  proof -
    have "\<forall>p \<in> set (predecessors (block_at ?f1 epilogue)).
            \<forall>i \<in> set (instructions (block_at ?f1 p)). isReturn i \<longrightarrow> inputs i \<noteq> []"
    proof (intro ballI impI)
      fix p i assume p: "p \<in> set (predecessors (block_at ?f1 epilogue))"
        and i: "i \<in> set (instructions (block_at ?f1 p))" "isReturn i"
      show "inputs i \<noteq> []"
      proof (cases "p = epilogue")
        case True
        then show ?thesis using i e1 np by simp
      next
        case False
        then show ?thesis using h p i same by simp
      qed
    qed
    from mergeReturns_success [OF this] obtain f2 where
      "mergeReturns epilogue (predecessors (block_at ?f1 epilogue)) ?f1 = Inr f2" by blast
    then have "mergeReturns epilogue ?ps ?f1 = Inr f2" by simp
    from after [OF this] show ?thesis by blast
  qed
  from part1 part2 show ?thesis by blast
qed

section \<open>Retargeting\<close>

lemma setLinkedOperand_empty [simp]: "setLinkedOperand Map.empty a = a"
  by (cases a) simp_all

lemma resolveInput_empty [simp]: "resolveInput Map.empty a = a"
proof (cases a)
  case (Ind b ix)
  then show ?thesis by (cases ix) simp_all
qed simp_all

lemma resolveLinkedArgumentsUses_empty [simp]: "resolveLinkedArgumentsUses Map.empty i = i"
  by (simp add: resolveLinkedArgumentsUses_def map_idI)

lemma setLinkedOperand_isLinked [simp]: "isLinked (setLinkedOperand vm a) = isLinked a"
  by (cases a) (simp_all split: option.splits)

lemma setLinkedOperand_comp:
  "setLinkedOperand vm2 (setLinkedOperand vm1 a) =
     setLinkedOperand
       (\<lambda>j. case vm1 j of None \<Rightarrow> vm2 j
             | Some d \<Rightarrow> (case vm2 d of None \<Rightarrow> Some d | Some e \<Rightarrow> Some e)) a"
  by (cases a) (simp_all split: option.splits)

lemma resolveInput_comp:
  "resolveInput vm2 (resolveInput vm1 a) =
     resolveInput
       (\<lambda>j. case vm1 j of None \<Rightarrow> vm2 j
             | Some d \<Rightarrow> (case vm2 d of None \<Rightarrow> Some d | Some e \<Rightarrow> Some e)) a"
proof (cases a)
  case (Linked j)
  then show ?thesis using setLinkedOperand_comp [of vm2 vm1 "Linked j"]
    by (simp split: option.splits)
next
  case (Ind b ix)
  show ?thesis
  proof (cases ix)
    case None
    then show ?thesis using Ind setLinkedOperand_comp [of vm2 vm1 b] by simp
  next
    case (Some x)
    then show ?thesis
      using Ind setLinkedOperand_comp [of vm2 vm1 b] setLinkedOperand_comp [of vm2 vm1 x]
      by simp
  qed
qed simp_all

lemma resolveLinkedArgumentsUses_comp:
  "\<exists>vm. resolveLinkedArgumentsUses vm2 (resolveLinkedArgumentsUses vm1 i)
          = resolveLinkedArgumentsUses vm i"
  by (rule exI [of _ "\<lambda>j. case vm1 j of None \<Rightarrow> vm2 j
             | Some d \<Rightarrow> (case vm2 d of None \<Rightarrow> Some d | Some e \<Rightarrow> Some e)"])
     (simp add: resolveLinkedArgumentsUses_def resolveInput_comp)

lemma retargeted_refl [simp]: "retargeted xs xs"
  unfolding retargeted_def
  by (rule list_all2_refl) (metis resolveLinkedArgumentsUses_empty)

lemma retargeted_trans: "retargeted xs ys \<Longrightarrow> retargeted ys zs \<Longrightarrow> retargeted xs zs"
  unfolding retargeted_def
proof (rule list_all2_trans)
  fix a b c :: instr
  assume "\<exists>vm. b = resolveLinkedArgumentsUses vm a" "\<exists>vm. c = resolveLinkedArgumentsUses vm b"
  then show "\<exists>vm. c = resolveLinkedArgumentsUses vm a"
    using resolveLinkedArgumentsUses_comp by metis
qed

lemma retargeted_Nil [simp]: "retargeted [] ys \<longleftrightarrow> ys = []" "retargeted xs [] \<longleftrightarrow> xs = []"
  by (simp_all add: retargeted_def)

lemma retargeted_Cons:
  "retargeted (x # xs) (y # ys) \<longleftrightarrow>
     (\<exists>vm. y = resolveLinkedArgumentsUses vm x) \<and> retargeted xs ys"
  by (simp add: retargeted_def)

lemma retargeted_length: "retargeted xs ys \<Longrightarrow> length ys = length xs"
  by (simp add: retargeted_def list_all2_lengthD)

lemma retargeted_nth:
  "retargeted xs ys \<Longrightarrow> k < length xs \<Longrightarrow> \<exists>vm. ys ! k = resolveLinkedArgumentsUses vm (xs ! k)"
  unfolding retargeted_def by (drule list_all2_nthD [where p = k]) auto

lemma retargeted_opcode:
  assumes "retargeted xs ys" "y \<in> set ys"
  shows "\<exists>x \<in> set xs. opcode y = opcode x"
proof -
  from assms(2) obtain k where k: "k < length ys" "ys ! k = y" by (auto simp: in_set_conv_nth)
  then have kx: "k < length xs" using retargeted_length [OF assms(1)] by simp
  from retargeted_nth [OF assms(1) kx] k(2) have "opcode y = opcode (xs ! k)" by auto
  then show ?thesis using kx by auto
qed

lemma retargeted_butlast: "retargeted xs ys \<Longrightarrow> retargeted (butlast xs) (butlast ys)"
  unfolding retargeted_def butlast_conv_take
  by (simp add: list_all2_takeI list_all2_lengthD)

lemma retargeted_last:
  assumes "retargeted xs ys" "xs \<noteq> []"
  shows "ys \<noteq> [] \<and> (\<exists>vm. last ys = resolveLinkedArgumentsUses vm (last xs))"
proof -
  have len: "length ys = length xs" using assms(1) by (rule retargeted_length)
  then have ne: "ys \<noteq> []" using assms(2) by auto
  have "length xs - 1 < length xs" using assms(2) by simp
  from retargeted_nth [OF assms(1) this]
  show ?thesis using ne assms(2) len by (simp add: last_conv_nth)
qed

section \<open>Binding the arguments\<close>

lemma spec_bind_arguments_id:
  "\<forall>i \<in> set xs. \<not> isLoadArg i \<Longrightarrow> spec_bind_arguments args xs = xs"
  by (induction xs) simp_all

lemma spec_bind_arguments_subset:
  "j \<in> set (spec_bind_arguments args xs) \<Longrightarrow> j \<in> set xs \<and> \<not> isLoadArg j \<or> opcode j = kMove"
  by (induction xs) (auto split: if_splits list.splits operand.splits)

lemma spec_bind_arguments_no_LoadArg:
  "j \<in> set (spec_bind_arguments args xs) \<Longrightarrow> \<not> isLoadArg j"
  using spec_bind_arguments_subset [of j args xs] by (auto simp: isLoadArg_def)

lemma spec_bind_arguments_return:
  "j \<in> set (spec_bind_arguments args xs) \<Longrightarrow> isReturn j \<Longrightarrow> j \<in> set xs"
  using spec_bind_arguments_subset [of j args xs] by (auto simp: isReturn_def)

lemma spec_bind_arguments_append:
  "spec_bind_arguments args (xs @ ys) = spec_bind_arguments args xs @ spec_bind_arguments args ys"
  by (induction xs) (simp_all split: list.splits operand.splits)

lemma resolveInstrs_bind:
  "resolveInstrs vm args xs = Inr (vm', ys) \<Longrightarrow> retargeted (spec_bind_arguments args xs) ys"
proof (induction xs arbitrary: vm vm' ys)
  case Nil
  then show ?case by simp
next
  case (Cons i rest)
  show ?case
  proof (cases "isLoadArg i")
    case True
    from Cons.prems True obtain vm1 kept vm2 rest' where
      r1: "resolveLoadArg vm args i = Inr (vm1, kept)" and
      r2: "resolveInstrs vm1 args rest = Inr (vm2, rest')" and
      ys: "ys = (case kept of None \<Rightarrow> rest' | Some i' \<Rightarrow> i' # rest')"
      by (auto split: sum.splits prod.splits)
    note ih = Cons.IH [OF r2]
    from r1 obtain k others where
      inp: "inputs i = Imm k # others" and k: "unat k < length args"
      by (cases "inputs i")
         (auto simp: resolveLoadArg_def getNumInputs_def split: if_splits operand.splits)
    show ?thesis
    proof (cases "args ! unat k")
      case (Imm c)
      then have "kept = Some (i\<lparr>opcode := kMove, inputs := Imm c # others\<rparr>)"
        using r1 inp k by (simp add: resolveLoadArg_def getNumInputs_def)
      then show ?thesis using True inp k Imm ys ih by (simp add: retargeted_Cons exI [of _ Map.empty])
    next
      case (Linked d)
      then have "kept = None"
        using r1 inp k by (simp add: resolveLoadArg_def getNumInputs_def)
      then show ?thesis using True inp k Linked ys ih by simp
    next
      case (VReg n)
      then show ?thesis using r1 inp k by (simp add: resolveLoadArg_def getNumInputs_def)
    next
      case (Ind b ix)
      then show ?thesis using r1 inp k by (simp add: resolveLoadArg_def getNumInputs_def)
    next
      case (Label l)
      then show ?thesis using r1 inp k by (simp add: resolveLoadArg_def getNumInputs_def)
    qed
  next
    case False
    from Cons.prems False obtain vm2 rest' where
      r2: "resolveInstrs vm args rest = Inr (vm2, rest')" and
      ys: "ys = resolveLinkedArgumentsUses vm i # rest'"
      by (auto split: sum.splits prod.splits)
    from Cons.IH [OF r2] show ?thesis using False ys by (auto simp: retargeted_Cons)
  qed
qed

text \<open>Across the runs of \<open>resolveInstrs\<close> on a block: it is untouched, or bound and
  retargeted.\<close>

lemma resolveBlocks_bind:
  assumes "resolveBlocks args ks vm f = Inr (vm', f')"
  shows "instructions (block_at f' y) = instructions (block_at f y) \<or>
         retargeted (spec_bind_arguments args (instructions (block_at f y)))
           (instructions (block_at f' y))"
proof -
  let ?R = "\<lambda>xs ys. ys = xs \<or> retargeted (spec_bind_arguments args xs) ys"
  have "?R (instructions (block_at f y)) (instructions (block_at f' y))"
  proof (rule resolveBlocks_rel [where R = ?R, OF _ _ _ assms])
    show "?R xs xs" for xs by simp
    show "?R xs ys" if "resolveInstrs vm args xs = Inr (vm', ys)" for vm xs vm' ys
      using resolveInstrs_bind [OF that] by simp
    show "?R xs zs" if a: "?R xs ys" and b: "?R ys zs" for xs ys zs
    proof (cases "ys = xs \<or> zs = ys")
      case True
      then show ?thesis using a b by auto
    next
      case False
      then have r1: "retargeted (spec_bind_arguments args xs) ys"
        and r2: "retargeted (spec_bind_arguments args ys) zs"
        using a b by auto
      have "\<forall>i \<in> set ys. \<not> isLoadArg i"
      proof
        fix i assume "i \<in> set ys"
        from retargeted_opcode [OF r1 this] obtain x where
          "x \<in> set (spec_bind_arguments args xs)" "opcode i = opcode x" by blast
        then show "\<not> isLoadArg i"
          using spec_bind_arguments_no_LoadArg [of x args xs] by (simp add: isLoadArg_def)
      qed
      then have "spec_bind_arguments args ys = ys" by (rule spec_bind_arguments_id)
      with r2 have "retargeted ys zs" by simp
      with r1 show ?thesis using retargeted_trans by blast
    qed
  qed
  then show ?thesis by simp
qed

lemma resolveArguments_bind:
  assumes run: "resolveArguments s = Inr s'"
    and clean: "\<forall>i \<in> set (instructions (block_at (caller s') y)). \<not> isLoadArg i"
  shows "retargeted (spec_bind_arguments (arguments s) (instructions (block_at (caller s) y)))
           (instructions (block_at (caller s') y))"
proof -
  from run obtain vm F3 where
    rb: "resolveBlocks (arguments s) [callee_start s ..< callee_end s] Map.empty (caller s)
            = Inr (vm, F3)" and s': "s' = s\<lparr>caller := F3\<rparr>"
    by (auto simp: resolveArguments_def split: sum.splits prod.splits)
  from resolveBlocks_bind [OF rb, of y] show ?thesis
  proof
    assume same: "instructions (block_at F3 y) = instructions (block_at (caller s) y)"
    then have "\<forall>i \<in> set (instructions (block_at (caller s) y)). \<not> isLoadArg i"
      using clean by (simp add: s')
    then have "spec_bind_arguments (arguments s) (instructions (block_at (caller s) y))
        = instructions (block_at (caller s) y)"
      by (rule spec_bind_arguments_id)
    then show ?thesis using same by (simp add: s')
  next
    assume "retargeted (spec_bind_arguments (arguments s) (instructions (block_at (caller s) y)))
           (instructions (block_at F3 y))"
    then show ?thesis by (simp add: s')
  qed
qed

section \<open>Return merging with a predecessor listed twice\<close>

lemma set_first_occurrences [simp]: "set (first_occurrences xs) = set xs"
  by (induction xs) auto

lemma first_occurrences_distinct: "distinct xs \<Longrightarrow> first_occurrences xs = xs"
  by (induction xs) (auto intro: filter_True)

lemma first_occurrences_map:
  "inj f \<Longrightarrow> first_occurrences (map f xs) = map f (first_occurrences xs)"
  by (induction xs) (auto simp: filter_map comp_def inj_eq)

lemma returns_last_butlast: "returns_last xs \<Longrightarrow> \<forall>i \<in> set (butlast xs). \<not> isReturn i"
  by (simp add: returns_last_def)

lemma returns_last_butlast2: "returns_last xs \<Longrightarrow> returns_last (butlast xs)"
  by (auto simp: returns_last_def dest: in_set_butlastD)

lemma mergeReturns_exact:
  assumes "mergeReturns e ps f = Inr f'"
    and "instructions (block_at f e) = xs @ [phi]"
    and "\<not> isReturn phi"
    and "\<forall>p \<in> set ps. p \<noteq> e \<longrightarrow> returns_last (instructions (block_at f p))"
  shows "instructions (block_at f' e) =
           xs @ [phi\<lparr>inputs := inputs phi @
                   concat (map (\<lambda>p. [Label p, inputs (last (instructions (block_at f p))) ! 0])
                             (filter (ends_in_return f) (first_occurrences ps)))\<rparr>]
       \<and> (\<forall>y. y \<noteq> e \<longrightarrow> instructions (block_at f' y) =
              (if y \<in> set ps \<and> ends_in_return f y then butlast (instructions (block_at f y))
               else instructions (block_at f y)))"
  using assms
proof (induction ps arbitrary: f phi)
  case Nil
  then show ?case by simp
next
  case (Cons p rest)
  have ne: "\<not> ends_in_return g e" if "instructions (block_at g e) = xs @ [ph]" "\<not> isReturn ph"
    for g ph
    using that by (simp add: ends_in_return_eq)
  show ?case
  proof (cases "ends_in_return f p")
    case False
    with Cons.prems have run: "mergeReturns e rest f = Inr f'" by (simp add: mergeReturns_Cons)
    have rl: "\<forall>q \<in> set rest. q \<noteq> e \<longrightarrow> returns_last (instructions (block_at f q))"
      using Cons.prems(4) by simp
    note ih = Cons.IH [OF run Cons.prems(2,3) rl]
    have "filter (\<lambda>x. x \<noteq> p \<and> ends_in_return f x) (first_occurrences rest)
        = filter (ends_in_return f) (first_occurrences rest)"
      using False by (intro filter_cong) auto
    then have "filter (ends_in_return f) (first_occurrences (p # rest))
        = filter (ends_in_return f) (first_occurrences rest)"
      using False by simp
    then show ?thesis using ih False by auto
  next
    case True
    have pe: "p \<noteq> e" using True ne [OF Cons.prems(2,3)] by auto
    let ?v = "inputs (last (instructions (block_at f p))) ! 0"
    let ?f3 = "removeLastInstr (appendPhiInput (appendPhiInput f e (Label p)) e ?v) p"
    let ?phi3 = "phi\<lparr>inputs := inputs phi @ [Label p, ?v]\<rparr>"
    from Cons.prems(1) True have run: "mergeReturns e rest ?f3 = Inr f'"
      by (simp add: mergeReturns_Cons split: if_splits)
    have e3: "instructions (block_at ?f3 e) = xs @ [?phi3]"
      using pe appendPhiInput_snoc [OF appendPhiInput_snoc [OF Cons.prems(2)]] by simp
    have other: "instructions (block_at ?f3 y) = instructions (block_at f y)"
      if "y \<noteq> e" "y \<noteq> p" for y
      using that by simp
    have at_p: "instructions (block_at ?f3 p) = butlast (instructions (block_at f p))"
      using pe by simp
    have np: "\<not> isReturn ?phi3" using Cons.prems(3) by (simp add: isReturn_def)
    have rlp: "returns_last (instructions (block_at f p))" using Cons.prems(4) pe by simp
    have not_p: "\<not> ends_in_return ?f3 p"
    proof
      assume "ends_in_return ?f3 p"
      then have "butlast (instructions (block_at f p)) \<noteq> []"
        "isReturn (last (butlast (instructions (block_at f p))))"
        unfolding ends_in_return_eq at_p by blast+
      then have "\<exists>i \<in> set (butlast (instructions (block_at f p))). isReturn i"
        using last_in_set by blast
      then show False using returns_last_butlast [OF rlp] by blast
    qed
    have eir: "ends_in_return ?f3 q = ends_in_return f q" if "q \<noteq> p" for q
    proof (cases "q = e")
      case True
      then show ?thesis using ne [OF e3 np] ne [OF Cons.prems(2,3)] by simp
    next
      case False
      then show ?thesis using other that by (simp add: ends_in_return_eq)
    qed
    have rl3: "\<forall>q \<in> set rest. q \<noteq> e \<longrightarrow> returns_last (instructions (block_at ?f3 q))"
    proof (intro ballI impI)
      fix q assume q: "q \<in> set rest" "q \<noteq> e"
      show "returns_last (instructions (block_at ?f3 q))"
      proof (cases "q = p")
        case True
        then show ?thesis using at_p returns_last_butlast2 [OF rlp] by simp
      next
        case False
        then show ?thesis using other q Cons.prems(4) by simp
      qed
    qed
    have filt: "filter (ends_in_return ?f3) (first_occurrences rest)
        = filter (ends_in_return f) (filter (\<lambda>y. y \<noteq> p) (first_occurrences rest))"
    proof -
      have "filter (ends_in_return ?f3) (first_occurrences rest)
          = filter (\<lambda>q. q \<noteq> p \<and> ends_in_return f q) (first_occurrences rest)"
        by (intro filter_cong refl) (metis eir not_p)
      then show ?thesis by (simp add: conj_commute)
    qed
    have vals: "map (\<lambda>q. [Label q, inputs (last (instructions (block_at ?f3 q))) ! 0])
                  (filter (ends_in_return f) (filter (\<lambda>y. y \<noteq> p) (first_occurrences rest)))
              = map (\<lambda>q. [Label q, inputs (last (instructions (block_at f q))) ! 0])
                  (filter (ends_in_return f) (filter (\<lambda>y. y \<noteq> p) (first_occurrences rest)))"
    proof (intro map_cong refl)
      fix q
      assume "q \<in> set (filter (ends_in_return f) (filter (\<lambda>y. y \<noteq> p) (first_occurrences rest)))"
      then have q: "q \<noteq> p" "ends_in_return f q" by auto
      then have "q \<noteq> e" using ne [OF Cons.prems(2,3)] by auto
      then show "[Label q, inputs (last (instructions (block_at ?f3 q))) ! 0]
          = [Label q, inputs (last (instructions (block_at f q))) ! 0]"
        using other q(1) by simp
    qed
    from Cons.IH [OF run e3 np rl3] have
      ih1: "instructions (block_at f' e) =
           xs @ [?phi3\<lparr>inputs := inputs ?phi3 @
                   concat (map (\<lambda>q. [Label q, inputs (last (instructions (block_at ?f3 q))) ! 0])
                             (filter (ends_in_return ?f3) (first_occurrences rest)))\<rparr>]" and
      ih2: "\<forall>y. y \<noteq> e \<longrightarrow> instructions (block_at f' y) =
              (if y \<in> set rest \<and> ends_in_return ?f3 y
               then butlast (instructions (block_at ?f3 y))
               else instructions (block_at ?f3 y))"
      by simp_all
    have g1: "instructions (block_at f' e) =
           xs @ [phi\<lparr>inputs := inputs phi @
                   concat (map (\<lambda>p. [Label p, inputs (last (instructions (block_at f p))) ! 0])
                             (filter (ends_in_return f) (first_occurrences (p # rest))))\<rparr>]"
      using ih1 [unfolded filt vals] True by simp
    have g2: "instructions (block_at f' y) =
              (if y \<in> set (p # rest) \<and> ends_in_return f y
               then butlast (instructions (block_at f y))
               else instructions (block_at f y))" if "y \<noteq> e" for y
    proof (cases "y = p")
      case True
      with ih2 that not_p at_p \<open>ends_in_return f p\<close> show ?thesis by simp
    next
      case False
      then show ?thesis using ih2 that eir [of y] other [of y] by auto
    qed
    from g1 g2 show ?thesis by blast
  qed
qed

lemma mergeReturns_inputs:
  assumes "mergeReturns e ps f = Inr f'"
    and "instructions (block_at f e) = xs @ [phi]"
    and "\<not> isReturn phi"
    and "p \<in> set ps" "ends_in_return f p"
  shows "inputs (last (instructions (block_at f p))) \<noteq> []"
  using assms
proof (induction ps arbitrary: f phi)
  case Nil
  then show ?case by simp
next
  case (Cons q rest)
  have pe: "p \<noteq> e" using Cons.prems(2,3,5) by (auto simp: ends_in_return_eq)
  show ?case
  proof (cases "q = p")
    case True
    then show ?thesis using Cons.prems(1,5) by (auto simp: mergeReturns_Cons split: if_splits)
  next
    case False
    then have pr: "p \<in> set rest" using Cons.prems(4) by simp
    show ?thesis
    proof (cases "ends_in_return f q")
      case nr: False
      with Cons.prems have run: "mergeReturns e rest f = Inr f'" by (simp add: mergeReturns_Cons)
      from Cons.IH [OF run Cons.prems(2,3) pr Cons.prems(5)] show ?thesis .
    next
      case True
      have qe: "q \<noteq> e" using True Cons.prems(2,3) by (auto simp: ends_in_return_eq)
      let ?v = "inputs (last (instructions (block_at f q))) ! 0"
      let ?f3 = "removeLastInstr (appendPhiInput (appendPhiInput f e (Label q)) e ?v) q"
      let ?phi3 = "phi\<lparr>inputs := inputs phi @ [Label q, ?v]\<rparr>"
      from Cons.prems(1) True have run: "mergeReturns e rest ?f3 = Inr f'"
        by (simp add: mergeReturns_Cons split: if_splits)
      have e3: "instructions (block_at ?f3 e) = xs @ [?phi3]"
        using qe appendPhiInput_snoc [OF appendPhiInput_snoc [OF Cons.prems(2)]] by simp
      have same: "instructions (block_at ?f3 p) = instructions (block_at f p)"
        using pe False by simp
      have np: "\<not> isReturn ?phi3" using Cons.prems(3) by (simp add: isReturn_def)
      have "ends_in_return ?f3 p" using Cons.prems(5) same by (simp add: ends_in_return_eq)
      from Cons.IH [OF run e3 np pr this] show ?thesis using same by simp
    qed
  qed
qed

text \<open>\<open>resolveReturnValue\<close> on a state whose epilogue is empty and whose call instruction
  stands outside the epilogue and its predecessors: the exact result.\<close>

lemma resolveReturnValue_exact:
  assumes idx: "0 < callee_end s" "callee_end s - 1 < length (basicblocks (caller s))"
    and epi: "epilogue = basicblocks (caller s) ! (callee_end s - 1)"
    and empty: "instructions (block_at (caller s) epilogue) = []"
    and call: "getCallInstr s = Some c"
    and cb: "call_bb s \<noteq> epilogue"
      "call_bb s \<notin> set (predecessors (block_at (caller s) epilogue))"
    and ps: "distinct (predecessors (block_at (caller s) epilogue)) \<or>
       (\<forall>p \<in> set (predecessors (block_at (caller s) epilogue)).
          returns_last (instructions (block_at (caller s) p)))"
    and run: "resolveReturnValue s = Inr s'"
    and ret: "returning = filter (ends_in_return (caller s))
                (first_occurrences (predecessors (block_at (caller s) epilogue)))"
  shows "basicblocks (caller s') = basicblocks (caller s)"
    and "callee_start s' = callee_start s \<and> callee_end s' = callee_end s \<and>
         arguments s' = arguments s"
    and "\<forall>y. predecessors (block_at (caller s') y) = predecessors (block_at (caller s) y)"
    and "instructions (block_at (caller s') epilogue) =
           (if returning = [] then []
            else [\<lparr>iid = fresh_iid (caller s), opcode = kPhi,
                   inputs = concat (map (\<lambda>p. [Label p,
                               inputs (last (instructions (block_at (caller s) p))) ! 0])
                             returning),
                   output_operand = OutVReg\<rparr>])"
    and "\<forall>y. y \<noteq> epilogue \<and> y \<noteq> call_bb s \<longrightarrow>
           instructions (block_at (caller s') y) =
             (if y \<in> set (predecessors (block_at (caller s) epilogue)) \<and>
                 ends_in_return (caller s) y
              then butlast (instructions (block_at (caller s) y))
              else instructions (block_at (caller s) y))"
    and "getCallInstr s' =
           Some (if returning = [] then c\<lparr>opcode := kNop\<rparr>
                 else c\<lparr>opcode := kMove, inputs := [Linked (fresh_iid (caller s))]\<rparr>)"
    and "\<forall>p \<in> set returning. inputs (last (instructions (block_at (caller s) p))) \<noteq> []"
proof -
  let ?f = "caller s"
  let ?ps = "predecessors (block_at ?f epilogue)"
  let ?phi = "\<lparr>iid = fresh_iid ?f, opcode = kPhi, inputs = [], output_operand = OutVReg\<rparr>"
  let ?f1 = "allocateInstr ?f epilogue ?phi"
  have e1: "instructions (block_at ?f1 epilogue) = [] @ [?phi]" using empty by simp
  have np: "\<not> isReturn ?phi" by (simp add: isReturn_def)
  have same: "instructions (block_at ?f1 p) = instructions (block_at ?f p)" if "p \<noteq> epilogue" for p
    using that by simp
  have eir: "ends_in_return ?f1 p = ends_in_return ?f p" for p
    using empty by (cases "p = epilogue") (simp_all add: ends_in_return_eq isReturn_def)
  have rne: "p \<noteq> epilogue" if "ends_in_return ?f p" for p
    using that empty by (auto simp: ends_in_return_eq)
  have unfold: "resolveReturnValue s =
      (case mergeReturns epilogue ?ps ?f1 of
         Inl e \<Rightarrow> Inl e
       | Inr f2 \<Rightarrow>
           (case getLastInstr f2 epilogue of
              None \<Rightarrow> Inl InvalidPointer
            | Some phi_instr \<Rightarrow>
                if getNumInputs phi_instr = 0
                then updateCallInstr s (removeLastInstr f2 epilogue) (\<lambda>c. c\<lparr>opcode := kNop\<rparr>)
                else updateCallInstr s f2
                       (\<lambda>c. c\<lparr>opcode := kMove, inputs := [Linked (iid phi_instr)]\<rparr>)))"
    using idx unfolding epi
    by (auto simp: resolveReturnValue_def Let_def split: sum.splits option.splits)
  from run unfold obtain f2 where mr: "mergeReturns epilogue ?ps ?f1 = Inr f2"
    by (cases "mergeReturns epilogue ?ps ?f1") auto
  note fr = mergeReturns_frame [OF mr]
  let ?ops1 = "concat (map (\<lambda>p. [Label p, inputs (last (instructions (block_at ?f1 p))) ! 0])
                 (filter (ends_in_return ?f1) (first_occurrences ?ps)))"
  have m1: "instructions (block_at f2 epilogue) = [?phi\<lparr>inputs := ?ops1\<rparr>]
       \<and> (\<forall>y. y \<noteq> epilogue \<longrightarrow> instructions (block_at f2 y) =
              (if y \<in> set ?ps \<and> ends_in_return ?f1 y then butlast (instructions (block_at ?f1 y))
               else instructions (block_at ?f1 y)))"
    using ps
  proof
    assume d: "distinct ?ps"
    from mergeReturns_distinct [OF mr e1 np] d show ?thesis
      by (simp add: first_occurrences_distinct)
  next
    assume "\<forall>p \<in> set ?ps. returns_last (instructions (block_at ?f p))"
    then have "\<forall>p \<in> set (predecessors (block_at ?f1 epilogue)). p \<noteq> epilogue \<longrightarrow>
        returns_last (instructions (block_at ?f1 p))"
      using same by simp
    from mergeReturns_exact [OF _ e1 np this] mr show ?thesis by simp
  qed
  have ops: "?ops1 = concat (map (\<lambda>p. [Label p, inputs (last (instructions (block_at ?f p))) ! 0])
                 returning)"
  proof -
    have f: "filter (ends_in_return ?f1) (first_occurrences ?ps) = returning"
      unfolding ret by (intro filter_cong refl) (simp only: eir)
    have m: "map (\<lambda>p. [Label p, inputs (last (instructions (block_at ?f1 p))) ! 0]) returning
        = map (\<lambda>p. [Label p, inputs (last (instructions (block_at ?f p))) ! 0]) returning"
    proof (intro map_cong refl)
      fix p assume "p \<in> set returning"
      then have "p \<noteq> epilogue" using rne by (auto simp: ret)
      then show "[Label p, inputs (last (instructions (block_at ?f1 p))) ! 0]
          = [Label p, inputs (last (instructions (block_at ?f p))) ! 0]"
        by simp
    qed
    show ?thesis by (simp only: f m)
  qed
  let ?ops = "concat (map (\<lambda>p. [Label p, inputs (last (instructions (block_at ?f p))) ! 0])
                 returning)"
  let ?phi2 = "\<lparr>iid = fresh_iid ?f, opcode = kPhi, inputs = ?ops, output_operand = OutVReg\<rparr>"
  have e2: "instructions (block_at f2 epilogue) = [?phi2]"
    using m1 ops by simp
  have o2: "instructions (block_at f2 y) =
              (if y \<in> set ?ps \<and> ends_in_return ?f y then butlast (instructions (block_at ?f y))
               else instructions (block_at ?f y))" if "y \<noteq> epilogue" for y
    using m1 that same eir by simp
  have opsnil: "?ops = [] \<longleftrightarrow> returning = []" by (cases returning) simp_all
  have last2: "getLastInstr f2 epilogue = Some ?phi2"
    using e2 by (simp add: getLastInstr_eq)
  have cb2: "instructions (block_at f2 (call_bb s)) = instructions (block_at ?f (call_bb s))"
    using o2 [OF cb(1)] cb(2) by simp
  have valid: "call_idx s < length (instructions (block_at ?f (call_bb s)))"
    and at: "instructions (block_at ?f (call_bb s)) ! call_idx s = c"
    using call by (simp_all add: getCallInstr_Some)
  have valid2: "call_idx s < length (instructions (block_at f2 (call_bb s)))"
    using valid cb2 by simp
  have valid3: "call_idx s < length (instructions (block_at (removeLastInstr f2 epilogue)
                                                       (call_bb s)))"
    using valid2 cb(1) by simp
  define fx where "fx = (if returning = [] then removeLastInstr f2 epilogue else f2)"
  define gx where "gx = (if returning = [] then (\<lambda>c::instr. c\<lparr>opcode := kNop\<rparr>)
       else (\<lambda>c. c\<lparr>opcode := kMove, inputs := [Linked (fresh_iid ?f)]\<rparr>))"
  have res: "resolveReturnValue s = Inr (s\<lparr>caller := setInstructions fx (call_bb s)
                ((instructions (block_at fx (call_bb s)))
                   [call_idx s := gx (instructions (block_at fx (call_bb s)) ! call_idx s)])\<rparr>)"
    unfolding unfold fx_def gx_def
    using mr last2 opsnil updateCallInstr_ok [OF valid2] updateCallInstr_ok [OF valid3]
    by (simp add: getNumInputs_def)
  then have s': "s' = s\<lparr>caller := setInstructions fx (call_bb s)
                ((instructions (block_at fx (call_bb s)))
                   [call_idx s := gx (instructions (block_at fx (call_bb s)) ! call_idx s)])\<rparr>"
    using run by simp
  have fx_e: "instructions (block_at fx epilogue) = (if returning = [] then [] else [?phi2])"
    using e2 by (simp add: fx_def)
  have fx_o: "instructions (block_at fx y) = instructions (block_at f2 y)"
    if "y \<noteq> epilogue" for y
    using that by (simp add: fx_def)
  show "basicblocks (caller s') = basicblocks (caller s)"
    using fr by (simp add: s' fx_def)
  show "callee_start s' = callee_start s \<and> callee_end s' = callee_end s \<and>
         arguments s' = arguments s"
    by (simp add: s')
  show "\<forall>y. predecessors (block_at (caller s') y) = predecessors (block_at (caller s) y)"
    using fr by (simp add: s' fx_def)
  show "instructions (block_at (caller s') epilogue) =
           (if returning = [] then [] else [?phi2])"
    using fx_e cb(1) by (simp add: s')
  show "\<forall>y. y \<noteq> epilogue \<and> y \<noteq> call_bb s \<longrightarrow>
           instructions (block_at (caller s') y) =
             (if y \<in> set ?ps \<and> ends_in_return ?f y
              then butlast (instructions (block_at ?f y))
              else instructions (block_at ?f y))"
    using fx_o o2 by (simp add: s')
  show "getCallInstr s' =
           Some (if returning = [] then c\<lparr>opcode := kNop\<rparr>
                 else c\<lparr>opcode := kMove, inputs := [Linked (fresh_iid ?f)]\<rparr>)"
    using valid at cb2 fx_o [OF cb(1)] by (simp add: s' getCallInstr_Some gx_def)
  show "\<forall>p \<in> set returning. inputs (last (instructions (block_at ?f p))) \<noteq> []"
  proof
    fix p assume "p \<in> set returning"
    then have p: "p \<in> set ?ps" "ends_in_return ?f p" by (simp_all add: ret)
    then have pe: "p \<noteq> epilogue" using rne by simp
    have "p \<in> set (predecessors (block_at ?f1 epilogue))" using p(1) by simp
    moreover have "ends_in_return ?f1 p" using p(2) eir by simp
    ultimately have "inputs (last (instructions (block_at ?f1 p))) \<noteq> []"
      using mergeReturns_inputs [OF _ e1 np] mr by simp
    then show "inputs (last (instructions (block_at ?f p))) \<noteq> []" using same pe by simp
  qed
qed

lemma bindable_copy: "bindable args i \<Longrightarrow> bindable args (copy_instr b ib i)"
  by (cases "inputs i") (auto simp: bindable_def)

lemma transplanted_eq:
  assumes "callee_end s = callee_start s + length cb"
    and "\<forall>k < length cb. basicblocks (caller s) ! (callee_start s + k) = base + cb ! k"
  shows "transplanted s = map (\<lambda>x. base + x) cb"
proof (rule nth_equalityI)
  show "length (transplanted s) = length (map (\<lambda>x. base + x) cb)"
    using assms(1) by (simp add: transplanted_def)
next
  fix i assume "i < length (transplanted s)"
  then have i: "i < length cb" using assms(1) by (simp add: transplanted_def)
  then have "transplanted s ! i = basicblocks (caller s) ! (callee_start s + i)"
    using assms(1) by (simp add: transplanted_def)
  also have "\<dots> = base + cb ! i" using assms(2) i by simp
  finally show "transplanted s ! i = map (\<lambda>x. base + x) cb ! i" using i by simp
qed

text \<open>
  The state in which \<open>inlineCall\<close> calls \<open>resolveReturnValue\<close> on an accepted callee, unless
  \<open>resolveArguments\<close> fails on an argument that is neither an immediate nor linked.
\<close>

lemma inlineCall_after_arguments:
  assumes call: "getCallInstr st = Some c"
    and res: "findFunction env c (name_to_function st) = (Some callee, cache)"
    and inl: "fst (isInlineable c callee (arguments st))"
    and cons: "consistent callee"
    and bb: "call_bb st \<in> set (basicblocks (caller st))"
  obtains (failed) "inlineCall env st = Inl JitDCheckFailed"
      "\<not> (arguments st = [] \<and> (\<forall>x \<in> set (drop 1 (inputs c)). isImm x \<or> isLinked x))"
    | (merging) s epilogue base ibase where
      "inlineCall env st =
         (case resolveReturnValue s of Inl e \<Rightarrow> Inl e | Inr st5 \<Rightarrow> Inr (True, st5))"
      "0 < callee_end s" "callee_end s - 1 < length (basicblocks (caller s))"
      "epilogue = basicblocks (caller s) ! (callee_end s - 1)"
      "instructions (block_at (caller s) epilogue) = []"
      "getCallInstr s = Some c"
      "call_bb s \<noteq> epilogue"
      "call_bb s \<notin> set (predecessors (block_at (caller s) epilogue))"
      "call_bb s \<notin> set (transplanted s)"
      "\<forall>y \<in> set (transplanted s). \<forall>i \<in> set (instructions (block_at (caller s) y)).
         \<not> isLoadArg i"
      "\<forall>y \<in> set (transplanted s). returns_last (instructions (block_at (caller s) y))"
      "\<forall>y \<in> set (transplanted s).
         (\<exists>i \<in> set (instructions (block_at (caller s) y)). isReturn i) \<longrightarrow>
         y \<in> set (predecessors (block_at (caller s) epilogue))"
      "\<forall>y \<in> set (transplanted s). \<forall>i \<in> set (instructions (block_at (caller s) y)).
         isReturn i \<longrightarrow>
         (\<exists>i0 \<in> set (instructions_in_order callee).
            isReturn i0 \<and> length (inputs i0) = length (inputs i))"
      "\<forall>p \<in> set (predecessors (block_at (caller s) epilogue)).
         p \<in> set (transplanted s) \<or>
         (hd (basicblocks callee) = last (basicblocks callee) \<and>
          instructions (block_at (caller s) p)
            = take (call_idx st) (instructions (block_at (caller st) (call_bb st))))"
      "\<forall>x \<in> set (basicblocks callee).
         ends_in_return callee x \<and> inputs (last (instructions (block_at callee x))) = [] \<longrightarrow>
         (\<exists>y \<in> set (transplanted s). ends_in_return (caller s) y \<and>
            inputs (last (instructions (block_at (caller s) y))) = [])"
      "transplanted s = map (\<lambda>x. base + x) (basicblocks callee)"
      "epilogue = base + last (basicblocks callee)"
      "predecessors (block_at (caller s) epilogue) =
         map (\<lambda>p. base + p) (predecessors (block_at callee (last (basicblocks callee)))) @
         (if last (basicblocks callee) = hd (basicblocks callee) then [call_bb st] else [])"
      "\<forall>x \<in> set (basicblocks callee).
         retargeted
           (spec_bind_arguments (arguments s)
              (map (copy_instr base ibase) (instructions (block_at callee x))))
           (instructions (block_at (caller s) (base + x)))"
      "arguments s = arguments st @ drop 1 (inputs c)"
      "call_bb st < base"
proof -
  obtain args where inl': "isInlineable c callee (arguments st) = (True, args)"
    using inl by (cases "isInlineable c callee (arguments st)") auto
  have inp: "inputs c \<noteq> []" using res by (rule findFunction_Some_inputs)
  note acc = isInlineable_accepts [OF inl' inp]
  let ?cb = "basicblocks callee" and ?a = "call_bb st" and ?b = "fresh_bid (caller st)"
  let ?cs = "Suc (index_of ?a (basicblocks (caller st)))"
  let ?n = "length ?cb"
  let ?ex = "last ?cb"
  from inlineCall_stages [OF call res inl' bb acc(1)] obtain F2 base ibase where
    run: "inlineCall env st =
        (case resolveArguments
                (st\<lparr>name_to_function := cache, arguments := args, caller := F2,
                    call_bb := ?b, call_idx := 0, callee_start := ?cs,
                    callee_end := ?cs + ?n\<rparr>) of
           Inl e \<Rightarrow> Inl e
         | Inr st4 \<Rightarrow>
             (case resolveReturnValue st4 of Inl e \<Rightarrow> Inl e | Inr st5 \<Rightarrow> Inr (True, st5)))"
    and lt: "?a < base" "?b < base" and ab: "?a \<noteq> ?b"
    and len: "?cs + ?n \<le> length (basicblocks F2)"
    and nth: "\<forall>k < ?n. basicblocks F2 ! (?cs + k) = base + ?cb ! k"
    and i2: "\<forall>x. instructions (block_at F2 (base + x)) =
               map (copy_instr base ibase) (instructions (block_at callee x))"
    and p2: "\<forall>x. predecessors (block_at F2 (base + x)) =
               map (\<lambda>p. base + p) (predecessors (block_at callee x)) @
               (if x = hd ?cb then [?a] else [])"
    and ib: "instructions (block_at F2 ?b)
          = drop (call_idx st) (instructions (block_at (caller st) ?a))"
    and ia: "instructions (block_at F2 ?a)
          = take (call_idx st) (instructions (block_at (caller st) ?a))"
    by blast
  define S where "S = st\<lparr>name_to_function := cache, arguments := args, caller := F2,
                    call_bb := ?b, call_idx := 0, callee_start := ?cs,
                    callee_end := ?cs + ?n\<rparr>"
  have S_simps: "caller S = F2" "arguments S = args" "call_bb S = ?b" "call_idx S = 0"
    "callee_start S = ?cs" "callee_end S = ?cs + ?n"
    by (simp_all add: S_def)
  have tr: "transplanted S = map (\<lambda>x. base + x) ?cb"
    by (rule transplanted_eq) (use nth in \<open>simp_all add: S_simps\<close>)
  have n0: "0 < ?n" using acc(1) by simp
  have epi_nth: "basicblocks F2 ! (?cs + ?n - 1) = base + ?ex"
  proof -
    have "basicblocks F2 ! (?cs + (?n - 1)) = base + ?cb ! (?n - 1)"
      using nth n0 by simp
    then show ?thesis using n0 acc(1) by (simp add: last_conv_nth)
  qed
  have ex_in: "?ex \<in> set ?cb" using acc(1) by simp
  have c1: "\<And>b s. b \<in> set ?cb \<Longrightarrow> s \<in> set (successors (block_at callee b)) \<Longrightarrow>
      b \<in> set (predecessors (block_at callee s))"
    using cons unfolding consistent_def by blast
  have c2: "\<And>b p. b \<in> set ?cb \<Longrightarrow> p \<in> set (predecessors (block_at callee b)) \<Longrightarrow>
      p \<in> set ?cb"
    using cons unfolding consistent_def by blast
  have bindS: "\<forall>y \<in> set (transplanted S). \<forall>i \<in> set (instructions (block_at (caller S) y)).
                 isLoadArg i \<longrightarrow> bindable (arguments S) i"
    using acc(6) i2 by (auto simp: tr S_simps intro: bindable_copy)
  have lenS: "callee_end S \<le> length (basicblocks (caller S))"
    using len by (simp add: S_simps)
  from resolveArguments_range [OF lenS bindS] show thesis
  proof
    assume f: "resolveArguments S = Inl JitDCheckFailed"
    have "\<not> (arguments st = [] \<and> (\<forall>x \<in> set (drop 1 (inputs c)). isImm x \<or> isLinked x))"
    proof
      assume "arguments st = [] \<and> (\<forall>x \<in> set (drop 1 (inputs c)). isImm x \<or> isLinked x)"
      then have "\<forall>a \<in> set (arguments S). isImm a \<or> isLinked a"
        using acc(2) by (simp add: S_simps)
      from resolveArguments_returns [OF lenS bindS this] f show False by auto
    qed
    moreover have "inlineCall env st = Inl JitDCheckFailed"
      using run f by (simp add: S_def)
    ultimately show thesis using failed by blast
  next
    assume "\<exists>F3. resolveArguments S = Inr (S\<lparr>caller := F3\<rparr>) \<and>
        basicblocks F3 = basicblocks (caller S) \<and>
        (\<forall>y. predecessors (block_at F3 y) = predecessors (block_at (caller S) y) \<and>
             successors (block_at F3 y) = successors (block_at (caller S) y)) \<and>
        (\<forall>y. y \<notin> set (transplanted S) \<longrightarrow>
             instructions (block_at F3 y) = instructions (block_at (caller S) y)) \<and>
        (\<forall>y \<in> set (transplanted S). \<forall>i \<in> set (instructions (block_at F3 y)). \<not> isLoadArg i) \<and>
        (\<forall>y. instructions (block_at (caller S) y) = [] \<longrightarrow> instructions (block_at F3 y) = []) \<and>
        (\<forall>y. returns_last (instructions (block_at (caller S) y)) \<longrightarrow>
             returns_last (instructions (block_at F3 y))) \<and>
        (\<forall>y. \<forall>i \<in> set (instructions (block_at F3 y)). isReturn i \<longrightarrow>
             (\<exists>x \<in> set (instructions (block_at (caller S) y)).
                isReturn x \<and> length (inputs x) = length (inputs i)))"
    then obtain F3 where
      ra: "resolveArguments S = Inr (S\<lparr>caller := F3\<rparr>)" and
      b3: "basicblocks F3 = basicblocks F2" and
      fr: "\<And>y. predecessors (block_at F3 y) = predecessors (block_at F2 y)" and
      out: "\<And>y. y \<notin> set (transplanted S) \<Longrightarrow>
             instructions (block_at F3 y) = instructions (block_at F2 y)" and
      clean: "\<forall>y \<in> set (transplanted S). \<forall>i \<in> set (instructions (block_at F3 y)).
                \<not> isLoadArg i" and
      nil: "\<And>y. instructions (block_at F2 y) = [] \<Longrightarrow> instructions (block_at F3 y) = []" and
      rl: "\<And>y. returns_last (instructions (block_at F2 y)) \<Longrightarrow>
             returns_last (instructions (block_at F3 y))" and
      orig: "\<And>y i. i \<in> set (instructions (block_at F3 y)) \<Longrightarrow> isReturn i \<Longrightarrow>
             (\<exists>x \<in> set (instructions (block_at F2 y)).
                isReturn x \<and> length (inputs x) = length (inputs i))"
      unfolding S_simps by blast
    define s where "s = S\<lparr>caller := F3\<rparr>"
    define epilogue where "epilogue = base + ?ex"
    have s_simps: "caller s = F3" "call_bb s = ?b" "call_idx s = 0"
      "callee_start s = ?cs" "callee_end s = ?cs + ?n"
      by (simp_all add: s_def S_simps)
    have trs: "transplanted s = map (\<lambda>x. base + x) ?cb"
      using tr by (simp add: transplanted_def s_simps S_simps b3)
    have g1: "inlineCall env st =
         (case resolveReturnValue s of Inl e \<Rightarrow> Inl e | Inr st5 \<Rightarrow> Inr (True, st5))"
      using run ra by (simp add: S_def s_def)
    have g2: "0 < callee_end s" "callee_end s - 1 < length (basicblocks (caller s))"
      using len n0 by (simp_all add: s_simps b3)
    have g3: "epilogue = basicblocks (caller s) ! (callee_end s - 1)"
      using epi_nth by (simp add: s_simps b3 epilogue_def)
    have g4: "instructions (block_at (caller s) epilogue) = []"
      using nil [of epilogue] i2 acc(3) by (simp add: s_simps epilogue_def)
    have b_out: "?b \<notin> set (transplanted S)" using lt(2) by (auto simp: tr)
    have a_out: "?a \<notin> set (transplanted S)" using lt(1) by (auto simp: tr)
    have at_b: "instructions (block_at F3 ?b)
        = drop (call_idx st) (instructions (block_at (caller st) ?a))"
      using out [OF b_out] ib by simp
    have g5: "getCallInstr s = Some c"
      using call at_b by (simp add: getCallInstr_Some s_simps)
    have g6: "call_bb s \<noteq> epilogue" using lt(2) by (simp add: s_simps epilogue_def)
    have preds_epi: "predecessors (block_at F3 epilogue) =
        map (\<lambda>p. base + p) (predecessors (block_at callee ?ex)) @
        (if ?ex = hd ?cb then [?a] else [])"
      using fr p2 by (simp add: epilogue_def)
    have g7: "call_bb s \<notin> set (predecessors (block_at (caller s) epilogue))"
      using lt(2) ab by (auto simp: s_simps preds_epi)
    have g8: "call_bb s \<notin> set (transplanted s)" using lt(2) by (auto simp: trs s_simps)
    have g9: "\<forall>y \<in> set (transplanted s). \<forall>i \<in> set (instructions (block_at (caller s) y)).
         \<not> isLoadArg i"
      using clean by (simp add: trs tr s_simps)
    have g10: "\<forall>y \<in> set (transplanted s). returns_last (instructions (block_at (caller s) y))"
    proof
      fix y assume "y \<in> set (transplanted s)"
      then obtain x where x: "x \<in> set ?cb" "y = base + x" by (auto simp: trs)
      have "returns_last (instructions (block_at F2 y))"
        using acc(4) x i2 by (simp add: returns_last_map_copy)
      then show "returns_last (instructions (block_at (caller s) y))"
        using rl by (simp add: s_simps)
    qed
    have from_callee: "\<exists>i0 \<in> set (instructions (block_at callee x)).
            isReturn i0 \<and> length (inputs i0) = length (inputs i)"
      if "i \<in> set (instructions (block_at F3 (base + x)))" "isReturn i" for x i
    proof -
      from orig [OF that] obtain i1 where
        "i1 \<in> set (instructions (block_at F2 (base + x)))" "isReturn i1"
        "length (inputs i1) = length (inputs i)" by blast
      then show ?thesis using i2 by auto
    qed
    have g11: "\<forall>y \<in> set (transplanted s).
         (\<exists>i \<in> set (instructions (block_at (caller s) y)). isReturn i) \<longrightarrow>
         y \<in> set (predecessors (block_at (caller s) epilogue))"
    proof (intro ballI impI)
      fix y assume y: "y \<in> set (transplanted s)"
        and r: "\<exists>i \<in> set (instructions (block_at (caller s) y)). isReturn i"
      from y obtain x where x: "x \<in> set ?cb" "y = base + x" by (auto simp: trs)
      from r x from_callee have "\<exists>i0 \<in> set (instructions (block_at callee x)). isReturn i0"
        by (auto simp: s_simps)
      then have "successors (block_at callee x) = [?ex]" using acc(5) x(1) by blast
      then have "?ex \<in> set (successors (block_at callee x))"
        by (metis list.set_intros(1))
      then have "x \<in> set (predecessors (block_at callee ?ex))"
        using c1 x(1) by blast
      then show "y \<in> set (predecessors (block_at (caller s) epilogue))"
        using x(2) by (simp add: s_simps preds_epi)
    qed
    have g12: "\<forall>y \<in> set (transplanted s). \<forall>i \<in> set (instructions (block_at (caller s) y)).
         isReturn i \<longrightarrow>
         (\<exists>i0 \<in> set (instructions_in_order callee).
            isReturn i0 \<and> length (inputs i0) = length (inputs i))"
    proof (intro ballI impI)
      fix y i assume y: "y \<in> set (transplanted s)"
        and i: "i \<in> set (instructions (block_at (caller s) y))" "isReturn i"
      from y obtain x where x: "x \<in> set ?cb" "y = base + x" by (auto simp: trs)
      from from_callee [of i x] i x obtain i0 where
        i0: "i0 \<in> set (instructions (block_at callee x))" "isReturn i0"
          "length (inputs i0) = length (inputs i)"
        by (auto simp: s_simps)
      have "i0 \<in> set (instructions_in_order callee)"
        using i0(1) x(1) by (auto simp: instructions_in_order_def)
      with i0 show "\<exists>i0 \<in> set (instructions_in_order callee).
            isReturn i0 \<and> length (inputs i0) = length (inputs i)" by blast
    qed
    have g13: "\<forall>p \<in> set (predecessors (block_at (caller s) epilogue)).
         p \<in> set (transplanted s) \<or>
         (hd ?cb = ?ex \<and>
          instructions (block_at (caller s) p)
            = take (call_idx st) (instructions (block_at (caller st) (call_bb st))))"
    proof
      fix p assume "p \<in> set (predecessors (block_at (caller s) epilogue))"
      then consider x where "x \<in> set (predecessors (block_at callee ?ex))" "p = base + x"
        | "p = ?a" "hd ?cb = ?ex"
        by (auto simp: s_simps preds_epi split: if_splits)
      then show "p \<in> set (transplanted s) \<or>
         (hd ?cb = ?ex \<and>
          instructions (block_at (caller s) p)
            = take (call_idx st) (instructions (block_at (caller st) (call_bb st))))"
      proof cases
        case 1
        then have "x \<in> set ?cb" using c2 ex_in by blast
        then show ?thesis using 1(2) by (simp add: trs)
      next
        case 2
        then show ?thesis using out [OF a_out] ia by (simp add: s_simps)
      qed
    qed
    have g14: "\<forall>x \<in> set ?cb.
         ends_in_return callee x \<and> inputs (last (instructions (block_at callee x))) = [] \<longrightarrow>
         (\<exists>y \<in> set (transplanted s). ends_in_return (caller s) y \<and>
            inputs (last (instructions (block_at (caller s) y))) = [])"
    proof (intro ballI impI)
      fix x assume x: "x \<in> set ?cb"
        and r: "ends_in_return callee x \<and> inputs (last (instructions (block_at callee x))) = []"
      let ?xs = "instructions (block_at callee x)"
      have ne: "?xs \<noteq> []" and lr: "isReturn (last ?xs)" and li: "inputs (last ?xs) = []"
        using r by (simp_all add: ends_in_return_eq)
      have "instructions (block_at F2 (base + x)) \<noteq> [] \<and>
          isReturn (last (instructions (block_at F2 (base + x)))) \<and>
          inputs (last (instructions (block_at F2 (base + x)))) = []"
        using ne lr li i2 by (simp add: last_map)
      moreover have "keeps_bare_return (instructions (block_at (caller S) (base + x)))
          (instructions (block_at (caller (S\<lparr>caller := F3\<rparr>)) (base + x)))"
        using ra by (rule resolveArguments_keeps_bare_return)
      ultimately have "instructions (block_at F3 (base + x)) \<noteq> [] \<and>
          isReturn (last (instructions (block_at F3 (base + x)))) \<and>
          inputs (last (instructions (block_at F3 (base + x)))) = []"
        by (simp add: keeps_bare_return_def S_simps)
      moreover have "base + x \<in> set (transplanted s)" using x by (simp add: trs)
      ultimately show "\<exists>y \<in> set (transplanted s). ends_in_return (caller s) y \<and>
            inputs (last (instructions (block_at (caller s) y))) = []"
        by (auto simp: ends_in_return_eq s_simps)
    qed
    have g15: "epilogue = base + ?ex" by (simp add: epilogue_def)
    have g16: "predecessors (block_at (caller s) epilogue) =
         map (\<lambda>p. base + p) (predecessors (block_at callee ?ex)) @
         (if ?ex = hd ?cb then [call_bb st] else [])"
      using preds_epi by (simp add: s_simps)
    have g17: "\<forall>x \<in> set ?cb.
         retargeted
           (spec_bind_arguments (arguments s)
              (map (copy_instr base ibase) (instructions (block_at callee x))))
           (instructions (block_at (caller s) (base + x)))"
    proof
      fix x assume x: "x \<in> set ?cb"
      then have "base + x \<in> set (transplanted S)" by (simp add: tr)
      then have "\<forall>i \<in> set (instructions (block_at (caller (S\<lparr>caller := F3\<rparr>)) (base + x))).
          \<not> isLoadArg i"
        using clean by simp
      from resolveArguments_bind [OF ra this]
      show "retargeted
           (spec_bind_arguments (arguments s)
              (map (copy_instr base ibase) (instructions (block_at callee x))))
           (instructions (block_at (caller s) (base + x)))"
        using i2 by (simp add: s_def S_simps)
    qed
    have g18: "arguments s = arguments st @ drop 1 (inputs c)"
      using acc(2) by (simp add: s_def S_simps)
    from g1 g2 g3 g4 g5 g6 g7 g8 g9 g10 g11 g12 g13 g14 trs g15 g16 g17 g18 lt(1)
    show thesis by (rule merging)
  qed
qed

section \<open>The blocks of the callee after the pass\<close>

lemma isInlineable_entry_exit:
  assumes "isInlineable c callee args0 = (True, args)"
  shows "predecessors (block_at callee (hd (basicblocks callee))) = []"
    and "successors (block_at callee (last (basicblocks callee))) = []"
proof -
  have "checkEntryExitReturn callee"
    using assms by (auto simp: isInlineable_def split: if_splits prod.splits)
  from checkEntryExitReturn_True [OF this] obtain en rest where
    "basicblocks callee = en # rest" "predecessors (block_at callee en) = []"
    "successors (block_at callee (last (basicblocks callee))) = []"
    by blast
  then show "predecessors (block_at callee (hd (basicblocks callee))) = []"
    and "successors (block_at callee (last (basicblocks callee))) = []"
    by simp_all
qed

lemma returns_last_snoc: "returns_last (ys @ [z]) \<longleftrightarrow> (\<forall>i \<in> set ys. \<not> isReturn i)"
  by (simp add: returns_last_def)

lemma filter_returns_last:
  assumes "returns_last B"
  shows "filter (\<lambda>i. \<not> isReturn i) B = (if B \<noteq> [] \<and> isReturn (last B) then butlast B else B)"
proof (cases B rule: rev_cases)
  case Nil
  then show ?thesis by simp
next
  case (snoc ys z)
  then have "\<forall>i \<in> set ys. \<not> isReturn i" using assms by (simp add: returns_last_snoc)
  then have "filter (\<lambda>i. \<not> isReturn i) ys = ys" by (simp add: filter_id_conv)
  then show ?thesis using snoc by simp
qed

lemma spec_bind_arguments_last:
  assumes "xs \<noteq> []" "\<not> isLoadArg (last xs)"
  shows "spec_bind_arguments args xs \<noteq> [] \<and> last (spec_bind_arguments args xs) = last xs"
proof -
  obtain ys z where xs: "xs = ys @ [z]" using assms(1) by (metis rev_exhaust)
  then have "\<not> isLoadArg z" using assms(2) by simp
  then show ?thesis unfolding xs by (simp add: spec_bind_arguments_append)
qed

lemma spec_bind_arguments_returns_last:
  assumes "returns_last xs"
  shows "returns_last (spec_bind_arguments args xs)"
proof (cases xs rule: rev_cases)
  case Nil
  then show ?thesis by (simp add: returns_last_def)
next
  case (snoc ys z)
  then have nr: "\<forall>i \<in> set ys. \<not> isReturn i" using assms by (simp add: returns_last_snoc)
  have a: "\<forall>i \<in> set (spec_bind_arguments args ys). \<not> isReturn i"
    using nr spec_bind_arguments_return by blast
  have "length (spec_bind_arguments args [z]) \<le> 1"
    by (simp split: list.splits operand.splits)
  then consider "spec_bind_arguments args [z] = []" | w where "spec_bind_arguments args [z] = [w]"
    by (cases "spec_bind_arguments args [z]") auto
  then show ?thesis
  proof cases
    case 1
    then have "spec_bind_arguments args xs = spec_bind_arguments args ys"
      unfolding snoc by (simp only: spec_bind_arguments_append append_Nil2)
    then show ?thesis using a by (auto simp: returns_last_def dest: in_set_butlastD)
  next
    case 2
    then have "spec_bind_arguments args xs = spec_bind_arguments args ys @ [w]"
      unfolding snoc by (simp only: spec_bind_arguments_append)
    then show ?thesis using a by (simp add: returns_last_snoc)
  qed
qed

text \<open>The last instruction of a block after binding and retargeting is a return exactly when
  the last instruction of the callee's block is one, and then it is that return.\<close>

lemma bound_block_return:
  assumes rt: "retargeted (spec_bind_arguments args (map (copy_instr b ib) xs)) ys"
    and rl: "returns_last xs"
  shows "(ys \<noteq> [] \<and> isReturn (last ys)) \<longleftrightarrow> (xs \<noteq> [] \<and> isReturn (last xs))"
    and "xs \<noteq> [] \<Longrightarrow> isReturn (last xs) \<Longrightarrow>
           \<exists>vm. last ys = resolveLinkedArgumentsUses vm (copy_instr b ib (last xs))"
proof -
  let ?M = "map (copy_instr b ib) xs"
  let ?B = "spec_bind_arguments args ?M"
  have fwd: "\<exists>vm. last ys = resolveLinkedArgumentsUses vm (copy_instr b ib (last xs))"
    and fwd_ne: "ys \<noteq> []"
    if ne: "xs \<noteq> []" and r: "isReturn (last xs)"
  proof -
    have lm: "last ?M = copy_instr b ib (last xs)" using ne by (simp add: last_map)
    have "\<not> isLoadArg (last ?M)"
      using r by (simp add: lm isReturn_def isLoadArg_def copy_instr_def)
    then have "?B \<noteq> [] \<and> last ?B = last ?M"
      using ne by (intro spec_bind_arguments_last) simp_all
    then show "\<exists>vm. last ys = resolveLinkedArgumentsUses vm (copy_instr b ib (last xs))"
      and "ys \<noteq> []"
      using retargeted_last [OF rt] lm by auto
  qed
  show "xs \<noteq> [] \<Longrightarrow> isReturn (last xs) \<Longrightarrow>
           \<exists>vm. last ys = resolveLinkedArgumentsUses vm (copy_instr b ib (last xs))"
    by (rule fwd)
  show "(ys \<noteq> [] \<and> isReturn (last ys)) \<longleftrightarrow> (xs \<noteq> [] \<and> isReturn (last xs))"
  proof
    assume "xs \<noteq> [] \<and> isReturn (last xs)"
    then have ne: "xs \<noteq> []" and r: "isReturn (last xs)" by simp_all
    from fwd [OF ne r] obtain vm where
      "last ys = resolveLinkedArgumentsUses vm (copy_instr b ib (last xs))" by blast
    then have "isReturn (last ys)" using r by (simp add: isReturn_def copy_instr_def)
    then show "ys \<noteq> [] \<and> isReturn (last ys)" using fwd_ne [OF ne r] by simp
  next
    assume a: "ys \<noteq> [] \<and> isReturn (last ys)"
    then have "last ys \<in> set ys" by simp
    from retargeted_opcode [OF rt this] obtain j where
      j: "j \<in> set ?B" "opcode (last ys) = opcode j" by blast
    then have "isReturn j" using a by (simp add: isReturn_def)
    then have "j \<in> set ?M" using j(1) spec_bind_arguments_return by blast
    then obtain i where i: "i \<in> set xs" "j = copy_instr b ib i" by auto
    then have ri: "isReturn i" using \<open>isReturn j\<close> by simp
    have ne: "xs \<noteq> []" using i(1) by auto
    have "i \<notin> set (butlast xs)" using rl ri by (auto simp: returns_last_def)
    moreover have "xs = butlast xs @ [last xs]" using ne by simp
    ultimately have "i = last xs"
      using i(1) by (metis Un_iff empty_iff empty_set set_ConsD set_append)
    then show "xs \<noteq> [] \<and> isReturn (last xs)" using ne ri by simp
  qed
qed

lemma retargeted_without_returns:
  assumes rt: "retargeted B ys" and rl: "returns_last B"
  shows "retargeted (filter (\<lambda>i. \<not> isReturn i) B)
           (if ys \<noteq> [] \<and> isReturn (last ys) then butlast ys else ys)"
proof -
  have len: "length ys = length B" using rt by (rule retargeted_length)
  have iff: "(ys \<noteq> [] \<and> isReturn (last ys)) \<longleftrightarrow> (B \<noteq> [] \<and> isReturn (last B))"
  proof (cases "B = []")
    case True
    then show ?thesis using len by simp
  next
    case False
    from retargeted_last [OF rt False] obtain vm where
      "ys \<noteq> []" "last ys = resolveLinkedArgumentsUses vm (last B)" by blast
    then show ?thesis using False by (simp add: isReturn_def)
  qed
  show ?thesis
    unfolding filter_returns_last [OF rl] iff
    using rt retargeted_butlast [OF rt] by auto
qed

text \<open>
  The state after a pass that returned true, in terms of the callee: the transplanted
  blocks stand at \<open>base + x\<close>, their instructions at \<open>ibase + i\<close>; \<open>returning\<close> are the
  blocks of the callee that precede its exit block and end in a return, in the order in
  which the exit block lists them first.
\<close>

lemma inlineCall_result:
  assumes call: "getCallInstr st = Some c"
    and res: "findFunction env c (name_to_function st) = (Some callee, cache)"
    and inl: "fst (isInlineable c callee (arguments st))"
    and cons: "consistent callee"
    and bb: "call_bb st \<in> set (basicblocks (caller st))"
    and ok: "inlineCall env st = Inr (True, st')"
    and ret: "returning = filter (ends_in_return callee)
                (first_occurrences (predecessors (block_at callee (last (basicblocks callee)))))"
  obtains (result) base ibase phi_id merged where
    "transplanted st' = map (\<lambda>x. base + x) (basicblocks callee)"
    "arguments st' = arguments st @ drop 1 (inputs c)"
    "0 < callee_end st'"
    "basicblocks (caller st') ! (callee_end st' - 1) = base + last (basicblocks callee)"
    "predecessors (block_at (caller st') (base + last (basicblocks callee))) =
       map (\<lambda>p. base + p) (predecessors (block_at callee (last (basicblocks callee)))) @
       (if last (basicblocks callee) = hd (basicblocks callee) then [call_bb st] else [])"
    "\<forall>x \<in> set (basicblocks callee). x \<noteq> last (basicblocks callee) \<longrightarrow>
       retargeted
         (spec_inlined_block (arguments st') base ibase (instructions (block_at callee x)))
         (instructions (block_at (caller st') (base + x)))"
    "\<forall>i \<in> set (instructions (block_at (caller st') (base + last (basicblocks callee)))).
       opcode i = kPhi"
    "hd (basicblocks callee) \<noteq> last (basicblocks callee) \<longrightarrow>
       instructions (block_at (caller st') (base + last (basicblocks callee))) =
         (if returning = [] then []
          else [\<lparr>iid = phi_id, opcode = kPhi,
                 inputs = concat (map (\<lambda>x. [Label (base + x), merged x]) returning),
                 output_operand = OutVReg\<rparr>]) \<and>
       getCallInstr st' =
         Some (if returning = [] then c\<lparr>opcode := kNop\<rparr>
               else c\<lparr>opcode := kMove, inputs := [Linked phi_id]\<rparr>)"
    "\<forall>x \<in> set returning.
       inputs (last (instructions (block_at callee x))) \<noteq> [] \<and>
       (\<exists>vm. merged x = resolveInput vm
                (copy_operand base ibase (inputs (last (instructions (block_at callee x))) ! 0)))"
  using call res inl cons bb
proof (cases rule: inlineCall_after_arguments)
  case failed
  then show ?thesis using ok by simp
next
  case (merging s epilogue base ibase)
  let ?cb = "basicblocks callee"
  let ?ex = "last ?cb"
  let ?P = "predecessors (block_at callee ?ex)"
  let ?ps = "predecessors (block_at (caller s) epilogue)"
  obtain args where inl': "isInlineable c callee (arguments st) = (True, args)"
    using inl by (cases "isInlineable c callee (arguments st)") auto
  have inp: "inputs c \<noteq> []" using res by (rule findFunction_Some_inputs)
  note acc = isInlineable_accepts [OF inl' inp]
  note ee = isInlineable_entry_exit [OF inl']
  have ex_in: "?ex \<in> set ?cb" using acc(1) by simp
  have c2: "\<And>b p. b \<in> set ?cb \<Longrightarrow> p \<in> set (predecessors (block_at callee b)) \<Longrightarrow>
      p \<in> set ?cb"
    using cons unfolding consistent_def by blast
  have P_in: "x \<in> set ?cb" if "x \<in> set ?P" for x using c2 [OF ex_in that] .
  have run: "resolveReturnValue s = Inr st'" using merging(1) ok by (auto split: sum.splits)
  have ps_eq: "?ps = map (\<lambda>p. base + p) ?P @ (if ?ex = hd ?cb then [call_bb st] else [])"
    by (rule merging(18))
  have dist_or: "distinct ?ps \<or> (\<forall>p \<in> set ?ps. returns_last (instructions (block_at (caller s) p)))"
  proof (cases "?ex = hd ?cb")
    case True
    then have "?P = []" using ee(1) by simp
    then show ?thesis using True by (simp add: ps_eq)
  next
    case False
    have "returns_last (instructions (block_at (caller s) p))" if "p \<in> set ?ps" for p
    proof -
      have "p \<in> set (transplanted s)" using merging(14) that False by metis
      then show ?thesis using merging(11) by blast
    qed
    then show ?thesis by blast
  qed
  define rs where "rs = filter (ends_in_return (caller s)) (first_occurrences ?ps)"
  note ex = resolveReturnValue_exact
    [OF merging(2,3,4,5,6,7,8) dist_or run rs_def]
  have tr: "transplanted st' = map (\<lambda>x. base + x) ?cb"
    using ex(1,2) merging(16) by (simp add: transplanted_def)
  have g1: "arguments st' = arguments st @ drop 1 (inputs c)"
    using ex(2) merging(20) by simp
  have g2: "0 < callee_end st'" using ex(2) merging(2) by simp
  have g3: "basicblocks (caller st') ! (callee_end st' - 1) = base + ?ex"
    using ex(1,2) merging(4,17) by simp
  have g4: "predecessors (block_at (caller st') (base + ?ex)) =
       map (\<lambda>p. base + p) ?P @ (if ?ex = hd ?cb then [call_bb st] else [])"
    using ex(3) ps_eq merging(17) by simp
  have blk: "retargeted
      (spec_bind_arguments (arguments s)
         (map (copy_instr base ibase) (instructions (block_at callee x))))
      (instructions (block_at (caller s) (base + x)))"
    and rlx: "returns_last (instructions (block_at callee x))"
    if "x \<in> set ?cb" for x
    using that merging(19) acc(4) by blast+
  have eir: "ends_in_return (caller s) (base + x) = ends_in_return callee x"
    if "x \<in> set ?cb" for x
    using bound_block_return(1) [OF blk [OF that] rlx [OF that]]
    by (simp add: ends_in_return_eq)
  have in_tr: "base + x \<in> set (transplanted s)" if "x \<in> set ?cb" for x
    using that by (simp add: merging(16))
  have g5: "\<forall>x \<in> set ?cb. x \<noteq> ?ex \<longrightarrow>
       retargeted
         (spec_inlined_block (arguments st') base ibase (instructions (block_at callee x)))
         (instructions (block_at (caller st') (base + x)))"
  proof (intro ballI impI)
    fix x assume x: "x \<in> set ?cb" and xe: "x \<noteq> ?ex"
    let ?y = "base + x"
    let ?Y = "instructions (block_at (caller s) ?y)"
    let ?B = "spec_bind_arguments (arguments s)
                (map (copy_instr base ibase) (instructions (block_at callee x)))"
    have ye: "?y \<noteq> epilogue" using xe by (simp add: merging(17))
    have yc: "?y \<noteq> call_bb s" using in_tr [OF x] merging(9) by auto
    have inps: "?y \<in> set ?ps" if "ends_in_return (caller s) ?y"
    proof -
      from that have "?Y \<noteq> []" "isReturn (last ?Y)" by (simp_all add: ends_in_return_eq)
      then have "\<exists>i \<in> set ?Y. isReturn i" using last_in_set by blast
      then show ?thesis using merging(12) in_tr [OF x] by blast
    qed
    have after: "instructions (block_at (caller st') ?y) =
        (if ?Y \<noteq> [] \<and> isReturn (last ?Y) then butlast ?Y else ?Y)"
      using ex(5) ye yc inps by (auto simp: ends_in_return_eq)
    have "returns_last ?B"
      using rlx [OF x] by (intro spec_bind_arguments_returns_last) (simp add: returns_last_map_copy)
    from retargeted_without_returns [OF blk [OF x] this]
    show "retargeted
         (spec_inlined_block (arguments st') base ibase (instructions (block_at callee x)))
         (instructions (block_at (caller st') ?y))"
      unfolding after spec_inlined_block_def using ex(2) by simp
  qed
  have g6: "\<forall>i \<in> set (instructions (block_at (caller st') (base + ?ex))). opcode i = kPhi"
    using ex(4) merging(17) by (simp split: if_splits)
  define merged where
    "merged = (\<lambda>x. inputs (last (instructions (block_at (caller s) (base + x)))) ! 0)"
  have rs_eq: "rs = map (\<lambda>x. base + x) returning" if ne: "hd ?cb \<noteq> ?ex"
  proof -
    have "?ps = map (\<lambda>p. base + p) ?P" using ne by (simp add: ps_eq)
    moreover have "inj (\<lambda>p. base + p)" by (simp add: inj_def)
    ultimately have "first_occurrences ?ps = map (\<lambda>p. base + p) (first_occurrences ?P)"
      by (simp add: first_occurrences_map)
    then have "rs = map (\<lambda>p. base + p)
        (filter (\<lambda>x. ends_in_return (caller s) (base + x)) (first_occurrences ?P))"
      by (simp add: rs_def filter_map comp_def)
    moreover have "filter (\<lambda>x. ends_in_return (caller s) (base + x)) (first_occurrences ?P)
        = filter (ends_in_return callee) (first_occurrences ?P)"
      using eir P_in by (intro filter_cong refl) simp
    ultimately show ?thesis by (simp add: ret)
  qed
  have g7: "hd ?cb \<noteq> ?ex \<longrightarrow>
       instructions (block_at (caller st') (base + ?ex)) =
         (if returning = [] then []
          else [\<lparr>iid = fresh_iid (caller s), opcode = kPhi,
                 inputs = concat (map (\<lambda>x. [Label (base + x), merged x]) returning),
                 output_operand = OutVReg\<rparr>]) \<and>
       getCallInstr st' =
         Some (if returning = [] then c\<lparr>opcode := kNop\<rparr>
               else c\<lparr>opcode := kMove, inputs := [Linked (fresh_iid (caller s))]\<rparr>)"
  proof
    assume ne: "hd ?cb \<noteq> ?ex"
    have m: "map (\<lambda>p. [Label p, inputs (last (instructions (block_at (caller s) p))) ! 0]) rs
        = map (\<lambda>x. [Label (base + x), merged x]) returning"
      by (simp add: rs_eq [OF ne] merged_def comp_def)
    have nil: "rs = [] \<longleftrightarrow> returning = []" by (simp add: rs_eq [OF ne])
    show "instructions (block_at (caller st') (base + ?ex)) =
         (if returning = [] then []
          else [\<lparr>iid = fresh_iid (caller s), opcode = kPhi,
                 inputs = concat (map (\<lambda>x. [Label (base + x), merged x]) returning),
                 output_operand = OutVReg\<rparr>]) \<and>
       getCallInstr st' =
         Some (if returning = [] then c\<lparr>opcode := kNop\<rparr>
               else c\<lparr>opcode := kMove, inputs := [Linked (fresh_iid (caller s))]\<rparr>)"
      using ex(4,6) unfolding m nil merging(17) by simp
  qed
  have g8: "\<forall>x \<in> set returning.
       inputs (last (instructions (block_at callee x))) \<noteq> [] \<and>
       (\<exists>vm. merged x = resolveInput vm
                (copy_operand base ibase (inputs (last (instructions (block_at callee x))) ! 0)))"
  proof
    fix x assume xr: "x \<in> set returning"
    let ?xs = "instructions (block_at callee x)"
    have xP: "x \<in> set ?P" and er: "ends_in_return callee x" using xr by (simp_all add: ret)
    have x: "x \<in> set ?cb" using P_in [OF xP] .
    have ne: "hd ?cb \<noteq> ?ex" using xP ee(1) by auto
    have "base + x \<in> set rs" using xr by (simp add: rs_eq [OF ne])
    then have i1: "inputs (last (instructions (block_at (caller s) (base + x)))) \<noteq> []"
      using ex(7) by blast
    have xne: "?xs \<noteq> []" and xr': "isReturn (last ?xs)"
      using er by (simp_all add: ends_in_return_eq)
    from bound_block_return(2) [OF blk [OF x] rlx [OF x] xne xr'] obtain vm where
      l: "last (instructions (block_at (caller s) (base + x)))
            = resolveLinkedArgumentsUses vm (copy_instr base ibase (last ?xs))"
      by blast
    have i2: "inputs (last (instructions (block_at (caller s) (base + x))))
        = map (resolveInput vm) (map (copy_operand base ibase) (inputs (last ?xs)))"
      unfolding l by (simp add: resolveLinkedArgumentsUses_def)
    have i3: "inputs (last ?xs) \<noteq> []" using i1 i2 by auto
    then have "merged x = resolveInput vm (copy_operand base ibase (inputs (last ?xs) ! 0))"
      unfolding merged_def i2 by (simp add: nth_map)
    with i3 show "inputs (last ?xs) \<noteq> [] \<and>
       (\<exists>vm. merged x = resolveInput vm (copy_operand base ibase (inputs (last ?xs) ! 0)))"
      by blast
  qed
  from tr g1 g2 g3 g4 g5 g6 g7 g8 show ?thesis by (rule result)
qed

text \<open>When the pass goes through on an accepted callee.\<close>

lemma inlineCall_returns_true:
  assumes call: "getCallInstr st = Some c"
    and res: "findFunction env c (name_to_function st) = (Some callee, cache)"
    and inl: "fst (isInlineable c callee (arguments st))"
    and cons: "consistent callee"
    and bb: "call_bb st \<in> set (basicblocks (caller st))"
    and args: "arguments st = []" "\<forall>x \<in> set (drop 1 (inputs c)). isImm x \<or> isLinked x"
    and rets: "\<forall>i \<in> set (instructions_in_order callee). isReturn i \<longrightarrow> inputs i \<noteq> []"
    and before: "hd (basicblocks callee) \<noteq> last (basicblocks callee) \<or>
       (\<forall>i \<in> set (take (call_idx st) (instructions (block_at (caller st) (call_bb st)))).
          isReturn i \<longrightarrow> inputs i \<noteq> [])"
  shows "\<exists>st'. inlineCall env st = Inr (True, st')"
  using call res inl cons bb
proof (cases rule: inlineCall_after_arguments)
  case failed
  then show ?thesis using args by blast
next
  case (merging s epilogue base ibase)
  have valid: "call_idx s < length (instructions (block_at (caller s) (call_bb s)))"
    using merging(6) by (simp add: getCallInstr_Some)
  note rr = resolveReturnValue_range [OF merging(2,3,4,5) valid merging(7,8)]
  have "\<forall>p \<in> set (predecessors (block_at (caller s) epilogue)).
       \<forall>i \<in> set (instructions (block_at (caller s) p)). isReturn i \<longrightarrow> inputs i \<noteq> []"
  proof (intro ballI impI)
    fix p i assume p: "p \<in> set (predecessors (block_at (caller s) epilogue))"
      and i: "i \<in> set (instructions (block_at (caller s) p))" "isReturn i"
    from merging(14) p consider "p \<in> set (transplanted s)"
      | "hd (basicblocks callee) = last (basicblocks callee)"
        "instructions (block_at (caller s) p)
           = take (call_idx st) (instructions (block_at (caller st) (call_bb st)))"
      by blast
    then show "inputs i \<noteq> []"
    proof cases
      case 1
      with merging(13) i obtain i0 where
        "i0 \<in> set (instructions_in_order callee)" "isReturn i0"
        "length (inputs i0) = length (inputs i)" by blast
      then show ?thesis using rets by force
    next
      case 2
      then show ?thesis using before i by simp
    qed
  qed
  with rr obtain s' where "resolveReturnValue s = Inr s'" by blast
  then show ?thesis using merging(1) by simp
qed

lemma findFunction_env_of:
  "inputs c = Imm 4096 # rest \<Longrightarrow>
     findFunction (env_of name callee) c (\<lambda>n. None)
       = (Some callee, (\<lambda>n. None)(name \<mapsto> Some callee))"
  by (simp add: findFunction_def parseFunction_def env_of_def getNumInputs_def Let_def)

lemma inliner_of_simps:
  "arguments (inliner_of c) = []"
  "name_to_function (inliner_of c) = (\<lambda>n. None)"
  "call_bb (inliner_of c) = 0"
  "call_idx (inliner_of c) = 1"
  "call_bb (inliner_of c) \<in> set (basicblocks (caller (inliner_of c)))"
  "take (call_idx (inliner_of c))
     (instructions (block_at (caller (inliner_of c)) (call_bb (inliner_of c))))
     = [mk_instr 50 (kOther 1) [Imm 1]]"
  by (simp_all add: inliner_of_def caller_of_def function_of_def mk_block_def)


lemma consistent_double: "consistent callee_double"
  by (simp add: consistent_def example_defs)

lemma consistent_two_returns: "consistent callee_two_returns"
  by (simp add: consistent_def example_defs)


lemma consistent_bare_return: "consistent callee_bare_return"
  by (simp add: consistent_def example_defs)




text \<open>
  Claim C1, as the code has it. Let the callee be resolved and accepted by
  \<^verbatim>\<open>isInlineable\<close>, with predecessor and successor lists that agree, for a call that
  stands in a block of the caller. Then \<^verbatim>\<open>inlineCall\<close> fails on one of its consistency
  checks (the \<^verbatim>\<open>JIT_CHECK\<close> that a merged return has an input operand, the \<^verbatim>\<open>JIT_DCHECK\<close>
  that an argument bound by a parameter load is an immediate or linked) or it returns true.
  When it returns true, the blocks of the range \<^verbatim>\<open>[callee_start_, callee_end_)\<close> are the
  copies of the callee's blocks in their order, and the collected arguments are the inputs
  of the call after the first. Every copied block other than the exit block holds the
  copy of the callee's instructions in which each parameter load bound to an immediate
  argument has become a move of that immediate, each parameter load bound to a linked
  argument is erased and the return is deleted, up to the retargeting of linked operands;
  the copy of the exit block holds nothing but the phi instruction; so no instruction of
  the range is a parameter load or a return. The pass does return true when no argument
  was collected before, every argument of the call is an immediate or a linked reference,
  every return of the callee has an input operand, and, where the callee is a single
  block, so has every return that stands before the call in the block of the call.
\<close>

theorem inlineCall_inlineable:
  assumes call: "getCallInstr st = Some c"
    and res: "findFunction env c (name_to_function st) = (Some callee, cache)"
    and inl: "fst (isInlineable c callee (arguments st))"
    and cons: "consistent callee"
    and bb: "call_bb st \<in> set (basicblocks (caller st))"
  shows "(inlineCall env st = Inl JitCheckFailed \<or> inlineCall env st = Inl JitDCheckFailed \<or>
          (\<exists>st' base ibase. inlineCall env st = Inr (True, st') \<and>
             transplanted st' = map (\<lambda>x. base + x) (basicblocks callee) \<and>
             arguments st' = arguments st @ drop 1 (inputs c) \<and>
             (\<forall>x \<in> set (basicblocks callee). x \<noteq> last (basicblocks callee) \<longrightarrow>
                retargeted
                  (spec_inlined_block (arguments st') base ibase
                     (instructions (block_at callee x)))
                  (instructions (block_at (caller st') (base + x)))) \<and>
             (\<forall>i \<in> set (instructions
                          (block_at (caller st') (base + last (basicblocks callee)))).
                opcode i = kPhi) \<and>
             (\<forall>y \<in> set (transplanted st'). \<forall>i \<in> set (instructions (block_at (caller st') y)).
                \<not> isLoadArg i \<and> \<not> isReturn i)))
     \<and> (arguments st = [] \<and> (\<forall>x \<in> set (drop 1 (inputs c)). isImm x \<or> isLinked x) \<and>
          (\<forall>i \<in> set (instructions_in_order callee). isReturn i \<longrightarrow> inputs i \<noteq> []) \<and>
          (hd (basicblocks callee) \<noteq> last (basicblocks callee) \<or>
           (\<forall>i \<in> set (take (call_idx st) (instructions (block_at (caller st) (call_bb st)))).
              isReturn i \<longrightarrow> inputs i \<noteq> []))
        \<longrightarrow> (\<exists>st'. inlineCall env st = Inr (True, st')))"
proof
  show "arguments st = [] \<and> (\<forall>x \<in> set (drop 1 (inputs c)). isImm x \<or> isLinked x) \<and>
          (\<forall>i \<in> set (instructions_in_order callee). isReturn i \<longrightarrow> inputs i \<noteq> []) \<and>
          (hd (basicblocks callee) \<noteq> last (basicblocks callee) \<or>
           (\<forall>i \<in> set (take (call_idx st) (instructions (block_at (caller st) (call_bb st)))).
              isReturn i \<longrightarrow> inputs i \<noteq> []))
        \<longrightarrow> (\<exists>st'. inlineCall env st = Inr (True, st'))"
    using inlineCall_returns_true [OF call res inl cons bb] by blast
next
  let ?good = "\<lambda>st' base ibase. inlineCall env st = Inr (True, st') \<and>
             transplanted st' = map (\<lambda>x. base + x) (basicblocks callee) \<and>
             arguments st' = arguments st @ drop 1 (inputs c) \<and>
             (\<forall>x \<in> set (basicblocks callee). x \<noteq> last (basicblocks callee) \<longrightarrow>
                retargeted
                  (spec_inlined_block (arguments st') base ibase
                     (instructions (block_at callee x)))
                  (instructions (block_at (caller st') (base + x)))) \<and>
             (\<forall>i \<in> set (instructions
                          (block_at (caller st') (base + last (basicblocks callee)))).
                opcode i = kPhi) \<and>
             (\<forall>y \<in> set (transplanted st'). \<forall>i \<in> set (instructions (block_at (caller st') y)).
                \<not> isLoadArg i \<and> \<not> isReturn i)"
  have fails: "inlineCall env st = Inl JitCheckFailed \<or> inlineCall env st = Inl JitDCheckFailed \<or>
      (\<exists>st'. inlineCall env st = Inr (True, st'))"
    using call res inl cons bb
  proof (cases rule: inlineCall_after_arguments)
    case failed
    then show ?thesis by blast
  next
    case (merging s epilogue base ibase)
    have valid: "call_idx s < length (instructions (block_at (caller s) (call_bb s)))"
      using merging(6) by (simp add: getCallInstr_Some)
    note rr = resolveReturnValue_range [OF merging(2,3,4,5) valid merging(7,8)]
    show ?thesis
    proof (cases "resolveReturnValue s")
      case (Inl e)
      then have "e = JitCheckFailed" using rr by auto
      then show ?thesis using Inl merging(1) by simp
    next
      case (Inr s')
      then show ?thesis using merging(1) by simp
    qed
  qed
  have good: "\<exists>base ibase. ?good st' base ibase" if ok: "inlineCall env st = Inr (True, st')"
    for st'
    using call res inl cons bb ok refl
  proof (cases rule: inlineCall_result)
    case (result base ibase phi_id merged)
    note tr = result(1) and ar = result(2) and blocks = result(6) and phi = result(7)
    have clean: "\<not> isLoadArg i \<and> \<not> isReturn i"
      if y: "y \<in> set (transplanted st')" and i: "i \<in> set (instructions (block_at (caller st') y))"
      for y i
    proof -
      from y obtain x where x: "x \<in> set (basicblocks callee)" "y = base + x"
        by (auto simp: tr)
      show ?thesis
      proof (cases "x = last (basicblocks callee)")
        case True
        then have "opcode i = kPhi" using phi i x(2) by simp
        then show ?thesis by (simp add: isLoadArg_def isReturn_def)
      next
        case False
        then have "retargeted
           (spec_inlined_block (arguments st') base ibase (instructions (block_at callee x)))
           (instructions (block_at (caller st') y))"
          using blocks x by simp
        from retargeted_opcode [OF this i] obtain j where
          j: "j \<in> set (spec_inlined_block (arguments st') base ibase
                        (instructions (block_at callee x)))"
            "opcode i = opcode j"
          by blast
        from j(1) have "\<not> isReturn j" "\<not> isLoadArg j"
          using spec_bind_arguments_no_LoadArg by (auto simp: spec_inlined_block_def)
        then show ?thesis using j(2) by (simp add: isLoadArg_def isReturn_def)
      qed
    qed
    have cl: "\<forall>y \<in> set (transplanted st'). \<forall>i \<in> set (instructions (block_at (caller st') y)).
                \<not> isLoadArg i \<and> \<not> isReturn i"
      by (intro ballI) (rule clean)
    from ok tr ar blocks phi cl show ?thesis
      by - (rule exI [of _ base], rule exI [of _ ibase], intro conjI, assumption+)
  qed
  from fails show "inlineCall env st = Inl JitCheckFailed \<or>
      inlineCall env st = Inl JitDCheckFailed \<or> (\<exists>st' base ibase. ?good st' base ibase)"
  proof (elim disjE exE)
    fix st' assume "inlineCall env st = Inr (True, st')"
    from good [OF this] obtain base ibase where "?good st' base ibase" by blast
    then have "\<exists>st' base ibase. ?good st' base ibase" by (intro exI)
    then show ?thesis by (intro disjI2)
  next
    assume "inlineCall env st = Inl JitCheckFailed"
    then show ?thesis by (rule disjI1)
  next
    assume "inlineCall env st = Inl JitDCheckFailed"
    then show ?thesis by (intro disjI2 disjI1)
  qed
qed

theorem inlineCall_inlineable_witness:
  "getCallInstr (inliner_of call_imm7) = Some call_imm7
   \<and> findFunction (env_of ''f'' callee_double) call_imm7
        (name_to_function (inliner_of call_imm7))
       = (Some callee_double, (\<lambda>n. None)(''f'' \<mapsto> Some callee_double))
   \<and> fst (isInlineable call_imm7 callee_double (arguments (inliner_of call_imm7)))
   \<and> consistent callee_double
   \<and> call_bb (inliner_of call_imm7) \<in> set (basicblocks (caller (inliner_of call_imm7)))
   \<and> (\<exists>st' base ibase.
         inlineCall (env_of ''f'' callee_double) (inliner_of call_imm7) = Inr (True, st')
         \<and> transplanted st' = [base, base + 1]
         \<and> arguments st' = [Imm 7]
         \<and> retargeted
             [mk_instr (ibase + 1) kMove [Imm 7],
              mk_instr (ibase + 2) (kOther 0) [Linked (ibase + 1), Linked (ibase + 1)]]
             (instructions (block_at (caller st') base)))"
proof -
  let ?st = "inliner_of call_imm7" and ?env = "env_of ''f'' callee_double"
  have h1: "getCallInstr ?st = Some call_imm7" by (rule getCallInstr_inliner_of)
  have h2: "findFunction ?env call_imm7 (name_to_function ?st)
       = (Some callee_double, (\<lambda>n. None)(''f'' \<mapsto> Some callee_double))"
    by (simp add: inliner_of_simps findFunction_env_of call_imm7_def mk_instr_def)
  have h3: "fst (isInlineable call_imm7 callee_double (arguments ?st))"
    by (simp add: inliner_of_simps inliner_defs example_defs)
  note h4 = consistent_double
  have h5: "call_bb ?st \<in> set (basicblocks (caller ?st))" by (rule inliner_of_simps)
  note t = inlineCall_inlineable [OF h1 h2 h3 h4 h5]
  have p2: "arguments ?st = [] \<and> (\<forall>x \<in> set (drop 1 (inputs call_imm7)). isImm x \<or> isLinked x) \<and>
          (\<forall>i \<in> set (instructions_in_order callee_double). isReturn i \<longrightarrow> inputs i \<noteq> []) \<and>
          (hd (basicblocks callee_double) \<noteq> last (basicblocks callee_double) \<or>
           (\<forall>i \<in> set (take (call_idx ?st) (instructions (block_at (caller ?st) (call_bb ?st)))).
              isReturn i \<longrightarrow> inputs i \<noteq> []))"
    by (simp add: inliner_of_simps instructions_in_order_def isReturn_def example_defs)
  from t [THEN conjunct2, THEN mp, OF p2] obtain st0 where
    ok: "inlineCall ?env ?st = Inr (True, st0)" by (elim exE)
  let ?good = "\<lambda>st' base ibase. inlineCall ?env ?st = Inr (True, st') \<and>
             transplanted st' = map (\<lambda>x. base + x) (basicblocks callee_double) \<and>
             arguments st' = arguments ?st @ drop 1 (inputs call_imm7) \<and>
             (\<forall>x \<in> set (basicblocks callee_double). x \<noteq> last (basicblocks callee_double) \<longrightarrow>
                retargeted
                  (spec_inlined_block (arguments st') base ibase
                     (instructions (block_at callee_double x)))
                  (instructions (block_at (caller st') (base + x)))) \<and>
             (\<forall>i \<in> set (instructions
                          (block_at (caller st') (base + last (basicblocks callee_double)))).
                opcode i = kPhi) \<and>
             (\<forall>y \<in> set (transplanted st'). \<forall>i \<in> set (instructions (block_at (caller st') y)).
                \<not> isLoadArg i \<and> \<not> isReturn i)"
  have "\<exists>st' base ibase. ?good st' base ibase"
  proof (rule disjE [OF t [THEN conjunct1]])
    assume "inlineCall ?env ?st = Inl JitCheckFailed"
    with ok show ?thesis by simp
  next
    assume "inlineCall ?env ?st = Inl JitDCheckFailed \<or> (\<exists>st' base ibase. ?good st' base ibase)"
    then show ?thesis
    proof
      assume "inlineCall ?env ?st = Inl JitDCheckFailed"
      with ok show ?thesis by simp
    qed
  qed
  then obtain st' base ibase where
    run: "inlineCall ?env ?st = Inr (True, st')" and
    tr: "transplanted st' = map (\<lambda>x. base + x) (basicblocks callee_double)" and
    ar: "arguments st' = arguments ?st @ drop 1 (inputs call_imm7)" and
    blocks: "\<forall>x \<in> set (basicblocks callee_double). x \<noteq> last (basicblocks callee_double) \<longrightarrow>
                retargeted
                  (spec_inlined_block (arguments st') base ibase
                     (instructions (block_at callee_double x)))
                  (instructions (block_at (caller st') (base + x)))"
    by (elim exE conjE) (rule that)
  have a1: "transplanted st' = [base, base + 1]"
    using tr by (simp add: example_defs)
  have a2: "arguments st' = [Imm 7]"
    using ar by (simp add: inliner_of_simps call_imm7_def mk_instr_def)
  have "retargeted
          (spec_inlined_block (arguments st') base ibase (instructions (block_at callee_double 0)))
          (instructions (block_at (caller st') (base + 0)))"
    using blocks by (simp add: example_defs)
  then have a3: "retargeted
             [mk_instr (ibase + 1) kMove [Imm 7],
              mk_instr (ibase + 2) (kOther 0) [Linked (ibase + 1), Linked (ibase + 1)]]
             (instructions (block_at (caller st') base))"
    unfolding a2
    by (simp add: spec_inlined_block_def copy_instr_def isLoadArg_def isReturn_def example_defs)
  from run a1 a2 a3 have "\<exists>st' base ibase.
         inlineCall ?env ?st = Inr (True, st')
         \<and> transplanted st' = [base, base + 1]
         \<and> arguments st' = [Imm 7]
         \<and> retargeted
             [mk_instr (ibase + 1) kMove [Imm 7],
              mk_instr (ibase + 2) (kOther 0) [Linked (ibase + 1), Linked (ibase + 1)]]
             (instructions (block_at (caller st') base))"
    by - (rule exI [of _ st'], rule exI [of _ base], rule exI [of _ ibase], intro conjI,
          assumption+)
  with h1 h2 h3 h4 h5 show ?thesis by (intro conjI) assumption+
qed

text \<open>
  The claim as the spec states it, that \<^verbatim>\<open>inlineCall\<close> returns true on every callee that
  is resolved and accepted, fails on a callee whose return has no input operand: the
  checker accepts it and \<^verbatim>\<open>resolveReturnValue\<close> stops on its \<^verbatim>\<open>JIT_CHECK\<close>.
\<close>

theorem inlineCall_inlineable_counterexample:
  "\<not> (\<forall>env st c callee cache.
        getCallInstr st = Some c \<and>
        findFunction env c (name_to_function st) = (Some callee, cache) \<and>
        fst (isInlineable c callee (arguments st))
        \<longrightarrow> (\<exists>st'. inlineCall env st = Inr (True, st')))"
proof
  assume a: "\<forall>env st c callee cache.
        getCallInstr st = Some c \<and>
        findFunction env c (name_to_function st) = (Some callee, cache) \<and>
        fst (isInlineable c callee (arguments st))
        \<longrightarrow> (\<exists>st'. inlineCall env st = Inr (True, st'))"
  have h1: "getCallInstr (inliner_of call_imm7) = Some call_imm7"
    by (rule getCallInstr_inliner_of)
  have h2: "findFunction (env_of ''f'' callee_bare_return) call_imm7
              (name_to_function (inliner_of call_imm7))
            = (Some callee_bare_return, (\<lambda>n. None)(''f'' \<mapsto> Some callee_bare_return))"
    by (simp add: inliner_of_simps findFunction_env_of call_imm7_def mk_instr_def)
  have h3: "fst (isInlineable call_imm7 callee_bare_return (arguments (inliner_of call_imm7)))"
    by (simp add: inliner_of_simps inliner_defs example_defs)
  have r: "inlineCall (env_of ''f'' callee_bare_return) (inliner_of call_imm7) = Inl JitCheckFailed"
    by (simp add: inliner_defs example_defs)
  from a h1 h2 h3 have
    "\<exists>st'. inlineCall (env_of ''f'' callee_bare_return) (inliner_of call_imm7) = Inr (True, st')"
    by blast
  with r show False by simp
qed

text \<open>
  Claim C3. Let \<^verbatim>\<open>inlineCall\<close> return true on a callee that holds a return and is
  resolved and accepted by \<^verbatim>\<open>isInlineable\<close>, with predecessor and successor lists that
  agree, for a call that stands in a block of the caller. The epilogue, the last block of
  the transplanted range, is the copy of the callee's exit block, and its predecessors are
  the copies of the predecessors of the exit block, in their stored order. A predecessor
  of the epilogue ends in a return when \<^verbatim>\<open>resolveReturnValue\<close> starts exactly when the
  block of the callee that it copies does; \<open>returning\<close> lists these blocks in the stored
  predecessor order, each where it is listed first. After the pass the epilogue holds the
  phi instruction alone. Its inputs are one pair for each block of \<open>returning\<close>, in that
  order: the label of the copy of the block, and the first input operand of its return,
  copied and with its linked operands retargeted by the argument resolver. Each of these
  blocks has lost its return. The call instruction has become a move whose only input is
  a linked reference to the phi instruction.
\<close>

theorem inlineCall_merges_in_predecessor_order:
  assumes call: "getCallInstr st = Some c"
    and res: "findFunction env c (name_to_function st) = (Some callee, cache)"
    and inl: "fst (isInlineable c callee (arguments st))"
    and cons: "consistent callee"
    and bb: "call_bb st \<in> set (basicblocks (caller st))"
    and ok: "inlineCall env st = Inr (True, st')"
    and some: "\<exists>i \<in> set (instructions_in_order callee). isReturn i"
    and exit: "exit_block = last (basicblocks callee)"
    and ret: "returning = filter (ends_in_return callee)
                (first_occurrences (predecessors (block_at callee exit_block)))"
  shows "\<exists>base ibase phi merged.
      returning \<noteq> [] \<and>
      basicblocks (caller st') ! (callee_end st' - 1) = base + exit_block \<and>
      predecessors (block_at (caller st') (base + exit_block))
        = map (\<lambda>p. base + p) (predecessors (block_at callee exit_block)) \<and>
      instructions (block_at (caller st') (base + exit_block)) = [phi] \<and>
      opcode phi = kPhi \<and>
      inputs phi = concat (map (\<lambda>x. [Label (base + x), merged x]) returning) \<and>
      (\<forall>x \<in> set returning.
         inputs (last (instructions (block_at callee x))) \<noteq> [] \<and>
         (\<exists>vm. merged x = resolveInput vm
                  (copy_operand base ibase
                     (inputs (last (instructions (block_at callee x))) ! 0))) \<and>
         retargeted
           (spec_inlined_block (arguments st') base ibase (instructions (block_at callee x)))
           (instructions (block_at (caller st') (base + x))) \<and>
         (\<forall>i \<in> set (instructions (block_at (caller st') (base + x))). \<not> isReturn i)) \<and>
      getCallInstr st' = Some (c\<lparr>opcode := kMove, inputs := [Linked (iid phi)]\<rparr>)"
proof -
  let ?cb = "basicblocks callee"
  let ?P = "predecessors (block_at callee exit_block)"
  obtain args where inl': "isInlineable c callee (arguments st) = (True, args)"
    using inl by (cases "isInlineable c callee (arguments st)") auto
  have inp: "inputs c \<noteq> []" using res by (rule findFunction_Some_inputs)
  note acc = isInlineable_accepts [OF inl' inp]
  note ee = isInlineable_entry_exit [OF inl']
  from some obtain x0 i where x0: "x0 \<in> set ?cb"
    and i: "i \<in> set (instructions (block_at callee x0))" "isReturn i"
    by (auto simp: instructions_in_order_def)
  let ?xs = "instructions (block_at callee x0)"
  have "successors (block_at callee x0) = [exit_block]" using acc(5) x0 i exit by blast
  then have "exit_block \<in> set (successors (block_at callee x0))" by simp
  then have x0P: "x0 \<in> set ?P" using cons x0 unfolding consistent_def by blast
  have ne: "?xs \<noteq> []" using i(1) by auto
  have "i \<notin> set (butlast ?xs)" using acc(4) x0 i(2) by (auto simp: returns_last_def)
  moreover have "?xs = butlast ?xs @ [last ?xs]" using ne by simp
  ultimately have "i = last ?xs"
    using i(1) by (metis Un_iff empty_iff empty_set set_ConsD set_append)
  then have "ends_in_return callee x0" using ne i(2) by (simp add: ends_in_return_eq)
  then have x0r: "x0 \<in> set returning" using x0P by (simp add: ret)
  then have rne: "returning \<noteq> []" by auto
  have hl: "hd ?cb \<noteq> last ?cb" using x0P ee(1) exit by auto
  have sub: "x \<in> set ?cb \<and> x \<noteq> last ?cb" if "x \<in> set returning" for x
  proof -
    have xP: "x \<in> set ?P" and er: "ends_in_return callee x" using that by (simp_all add: ret)
    have "last ?cb \<in> set ?cb" using acc(1) by simp
    then have "x \<in> set ?cb" using cons xP exit unfolding consistent_def by blast
    moreover have "x \<noteq> last ?cb" using er acc(3) by (auto simp: ends_in_return_eq)
    ultimately show ?thesis by simp
  qed
  note ret' = ret [unfolded exit]
  from call res inl cons bb ok ret' show ?thesis
  proof (cases rule: inlineCall_result)
  case (result base ibase phi_id merged)
  note epi = result(4) and preds = result(5) and blocks = result(6) and merge = result(8)
    and vals = result(9)
  define phi where "phi = \<lparr>iid = phi_id, opcode = kPhi,
                 inputs = concat (map (\<lambda>x. [Label (base + x), merged x]) returning),
                 output_operand = OutVReg\<rparr>"
  have g1: "basicblocks (caller st') ! (callee_end st' - 1) = base + exit_block"
    using epi exit by simp
  have g2: "predecessors (block_at (caller st') (base + exit_block))
        = map (\<lambda>p. base + p) ?P"
    using preds hl exit by simp
  have g3: "instructions (block_at (caller st') (base + exit_block)) = [phi]"
    using merge hl rne exit by (simp add: phi_def)
  have g4: "opcode phi = kPhi"
    "inputs phi = concat (map (\<lambda>x. [Label (base + x), merged x]) returning)"
    "iid phi = phi_id"
    by (simp_all add: phi_def)
  have g5: "getCallInstr st' = Some (c\<lparr>opcode := kMove, inputs := [Linked (iid phi)]\<rparr>)"
    using merge hl rne by (simp add: g4(3))
  have g6: "inputs (last (instructions (block_at callee x))) \<noteq> [] \<and>
         (\<exists>vm. merged x = resolveInput vm
                  (copy_operand base ibase
                     (inputs (last (instructions (block_at callee x))) ! 0))) \<and>
         retargeted
           (spec_inlined_block (arguments st') base ibase (instructions (block_at callee x)))
           (instructions (block_at (caller st') (base + x))) \<and>
         (\<forall>i \<in> set (instructions (block_at (caller st') (base + x))). \<not> isReturn i)"
    if x: "x \<in> set returning" for x
  proof -
    have rt: "retargeted
           (spec_inlined_block (arguments st') base ibase (instructions (block_at callee x)))
           (instructions (block_at (caller st') (base + x)))"
      using blocks sub [OF x] by blast
    have "\<not> isReturn i" if "i \<in> set (instructions (block_at (caller st') (base + x)))" for i
    proof -
      from retargeted_opcode [OF rt that] obtain j where
        "j \<in> set (spec_inlined_block (arguments st') base ibase
                      (instructions (block_at callee x)))"
        "opcode i = opcode j"
        by blast
      then show ?thesis by (auto simp: spec_inlined_block_def isReturn_def)
    qed
    then have nr: "\<forall>i \<in> set (instructions (block_at (caller st') (base + x))). \<not> isReturn i"
      by blast
    from vals x have v: "inputs (last (instructions (block_at callee x))) \<noteq> [] \<and>
         (\<exists>vm. merged x = resolveInput vm
                  (copy_operand base ibase
                     (inputs (last (instructions (block_at callee x))) ! 0)))"
      by (rule bspec)
    from v rt nr show ?thesis by (elim conjE, intro conjI) assumption+
  qed
  have g7: "\<forall>x \<in> set returning.
         inputs (last (instructions (block_at callee x))) \<noteq> [] \<and>
         (\<exists>vm. merged x = resolveInput vm
                  (copy_operand base ibase
                     (inputs (last (instructions (block_at callee x))) ! 0))) \<and>
         retargeted
           (spec_inlined_block (arguments st') base ibase (instructions (block_at callee x)))
           (instructions (block_at (caller st') (base + x))) \<and>
         (\<forall>i \<in> set (instructions (block_at (caller st') (base + x))). \<not> isReturn i)"
    by (intro ballI) (rule g6)
  from rne g1 g2 g3 g4(1,2) g7 g5 show ?thesis
    by - (rule exI [of _ base], rule exI [of _ ibase], rule exI [of _ phi],
          rule exI [of _ merged], intro conjI, assumption+)
  qed
qed

theorem inlineCall_merges_in_predecessor_order_witness:
  "getCallInstr (inliner_of call_linked) = Some call_linked
   \<and> findFunction (env_of ''f'' callee_two_returns) call_linked
        (name_to_function (inliner_of call_linked))
       = (Some callee_two_returns, (\<lambda>n. None)(''f'' \<mapsto> Some callee_two_returns))
   \<and> fst (isInlineable call_linked callee_two_returns (arguments (inliner_of call_linked)))
   \<and> consistent callee_two_returns
   \<and> call_bb (inliner_of call_linked) \<in> set (basicblocks (caller (inliner_of call_linked)))
   \<and> (\<exists>i \<in> set (instructions_in_order callee_two_returns). isReturn i)
   \<and> last (basicblocks callee_two_returns) = 3
   \<and> filter (ends_in_return callee_two_returns)
        (first_occurrences (predecessors (block_at callee_two_returns 3))) = [1, 2]
   \<and> (\<exists>st' base phi merged.
         inlineCall (env_of ''f'' callee_two_returns) (inliner_of call_linked) = Inr (True, st')
         \<and> basicblocks (caller st') ! (callee_end st' - 1) = base + 3
         \<and> predecessors (block_at (caller st') (base + 3)) = [base + 1, base + 2]
         \<and> instructions (block_at (caller st') (base + 3)) = [phi]
         \<and> opcode phi = kPhi
         \<and> inputs phi = [Label (base + 1), Imm 1, Label (base + 2), merged]
         \<and> isLinked merged
         \<and> instructions (block_at (caller st') (base + 1)) = []
         \<and> instructions (block_at (caller st') (base + 2)) = []
         \<and> getCallInstr st' = Some (call_linked\<lparr>opcode := kMove, inputs := [Linked (iid phi)]\<rparr>))"
proof -
  let ?st = "inliner_of call_linked" and ?env = "env_of ''f'' callee_two_returns"
  have h1: "getCallInstr ?st = Some call_linked" by (rule getCallInstr_inliner_of)
  have h2: "findFunction ?env call_linked (name_to_function ?st)
       = (Some callee_two_returns, (\<lambda>n. None)(''f'' \<mapsto> Some callee_two_returns))"
    by (simp add: inliner_of_simps findFunction_env_of call_linked_def mk_instr_def)
  have h3: "fst (isInlineable call_linked callee_two_returns (arguments ?st))"
    by (simp add: inliner_of_simps inliner_defs example_defs)
  note h4 = consistent_two_returns
  have h5: "call_bb ?st \<in> set (basicblocks (caller ?st))" by (rule inliner_of_simps)
  have h6: "\<exists>i \<in> set (instructions_in_order callee_two_returns). isReturn i"
    by (simp add: instructions_in_order_def isReturn_def example_defs)
  have e1: "last (basicblocks callee_two_returns) = 3" by (simp add: example_defs)
  have e2: "filter (ends_in_return callee_two_returns)
        (first_occurrences (predecessors (block_at callee_two_returns 3))) = [1, 2]"
    by (simp add: ends_in_return_eq isReturn_def example_defs)
  have rets: "\<forall>i \<in> set (instructions_in_order callee_two_returns). isReturn i \<longrightarrow> inputs i \<noteq> []"
    by (simp add: instructions_in_order_def isReturn_def example_defs)
  have args: "arguments ?st = []" "\<forall>x \<in> set (drop 1 (inputs call_linked)). isImm x \<or> isLinked x"
    by (simp_all add: inliner_of_simps call_linked_def mk_instr_def)
  have bf: "hd (basicblocks callee_two_returns) \<noteq> last (basicblocks callee_two_returns) \<or>
       (\<forall>i \<in> set (take (call_idx ?st) (instructions (block_at (caller ?st) (call_bb ?st)))).
          isReturn i \<longrightarrow> inputs i \<noteq> [])"
    by (simp add: example_defs)
  from inlineCall_returns_true [OF h1 h2 h3 h4 h5 args rets bf] obtain st' where
    ok: "inlineCall ?env ?st = Inr (True, st')" by (elim exE)
  from inlineCall_merges_in_predecessor_order [OF h1 h2 h3 h4 h5 ok h6 e1 [symmetric] e2 [symmetric]]
  obtain base ibase phi merged where
    g1: "basicblocks (caller st') ! (callee_end st' - 1) = base + 3" and
    g2: "predecessors (block_at (caller st') (base + 3))
           = map (\<lambda>p. base + p) (predecessors (block_at callee_two_returns 3))" and
    g3: "instructions (block_at (caller st') (base + 3)) = [phi]" and
    g4: "opcode phi = kPhi" and
    g5: "inputs phi = concat (map (\<lambda>x. [Label (base + x), merged x]) [1, 2])" and
    g6: "\<forall>x \<in> set [1, 2].
         inputs (last (instructions (block_at callee_two_returns x))) \<noteq> [] \<and>
         (\<exists>vm. merged x = resolveInput vm
                  (copy_operand base ibase
                     (inputs (last (instructions (block_at callee_two_returns x))) ! 0))) \<and>
         retargeted
           (spec_inlined_block (arguments st') base ibase
              (instructions (block_at callee_two_returns x)))
           (instructions (block_at (caller st') (base + x))) \<and>
         (\<forall>i \<in> set (instructions (block_at (caller st') (base + x))). \<not> isReturn i)" and
    g7: "getCallInstr st' = Some (call_linked\<lparr>opcode := kMove, inputs := [Linked (iid phi)]\<rparr>)"
    by (elim exE conjE) (rule that)
  have b2: "predecessors (block_at (caller st') (base + 3)) = [base + 1, base + 2]"
    using g2 by (simp add: example_defs)
  from g6 obtain vm1 vm2 where
    m1: "merged 1 = resolveInput vm1 (copy_operand base ibase (Imm 1))" and
    m2: "merged 2 = resolveInput vm2 (copy_operand base ibase (Linked 1))"
    by (auto simp: example_defs)
  have b5: "inputs phi = [Label (base + 1), Imm 1, Label (base + 2), merged 2]"
    using g5 m1 by simp
  have b6: "isLinked (merged 2)" using m2 by (simp split: option.splits)
  have r1: "retargeted
           (spec_inlined_block (arguments st') base ibase
              (instructions (block_at callee_two_returns 1)))
           (instructions (block_at (caller st') (base + 1)))"
    and r2: "retargeted
           (spec_inlined_block (arguments st') base ibase
              (instructions (block_at callee_two_returns 2)))
           (instructions (block_at (caller st') (base + 2)))"
    using g6 by simp_all
  have b7: "instructions (block_at (caller st') (base + 1)) = []"
    using r1 by (simp add: spec_inlined_block_def copy_instr_def isLoadArg_def isReturn_def
                   example_defs)
  have b8: "instructions (block_at (caller st') (base + 2)) = []"
    using r2 by (simp add: spec_inlined_block_def copy_instr_def isLoadArg_def isReturn_def
                   example_defs)
  from ok g1 b2 g3 g4 b5 b6 b7 b8 g7 have "\<exists>st' base phi merged.
         inlineCall ?env ?st = Inr (True, st')
         \<and> basicblocks (caller st') ! (callee_end st' - 1) = base + 3
         \<and> predecessors (block_at (caller st') (base + 3)) = [base + 1, base + 2]
         \<and> instructions (block_at (caller st') (base + 3)) = [phi]
         \<and> opcode phi = kPhi
         \<and> inputs phi = [Label (base + 1), Imm 1, Label (base + 2), merged]
         \<and> isLinked merged
         \<and> instructions (block_at (caller st') (base + 1)) = []
         \<and> instructions (block_at (caller st') (base + 2)) = []
         \<and> getCallInstr st' = Some (call_linked\<lparr>opcode := kMove, inputs := [Linked (iid phi)]\<rparr>)"
    by - (rule exI [of _ st'], rule exI [of _ base], rule exI [of _ phi],
          rule exI [of _ "merged 2"], intro conjI, assumption+)
  with h1 h2 h3 h4 h5 h6 e1 e2 show ?thesis by (intro conjI) assumption+
qed




text \<open>
  Claim C9. A callee that holds a return without input operand can pass \<^verbatim>\<open>isInlineable\<close>:
  the checker does not look at the inputs of a return. On every such callee (resolved,
  accepted, with predecessor and successor lists that agree) the pass does not complete:
  it fails on a consistency check, and when the arguments of the call are immediates or
  linked references, so that \<^verbatim>\<open>resolveArguments\<close> goes through, it fails in return
  merging on the \<^verbatim>\<open>JIT_CHECK\<close> that a merged return has an input operand.
\<close>

theorem inlineCall_aborts_on_bare_return:
  assumes call: "getCallInstr st = Some c"
    and res: "findFunction env c (name_to_function st) = (Some callee, cache)"
    and inl: "fst (isInlineable c callee (arguments st))"
    and cons: "consistent callee"
    and bb: "call_bb st \<in> set (basicblocks (caller st))"
    and bare: "\<exists>i \<in> set (instructions_in_order callee). isReturn i \<and> inputs i = []"
  shows "(inlineCall env st = Inl JitCheckFailed \<or> inlineCall env st = Inl JitDCheckFailed)
     \<and> (arguments st = [] \<and> (\<forall>x \<in> set (drop 1 (inputs c)). isImm x \<or> isLinked x)
        \<longrightarrow> inlineCall env st = Inl JitCheckFailed)"
  using call res inl cons bb
proof (cases rule: inlineCall_after_arguments)
  case failed
  then show ?thesis by blast
next
  case (merging s epilogue base ibase)
  obtain args where inl': "isInlineable c callee (arguments st) = (True, args)"
    using inl by (cases "isInlineable c callee (arguments st)") auto
  have inp: "inputs c \<noteq> []" using res by (rule findFunction_Some_inputs)
  note acc = isInlineable_accepts [OF inl' inp]
  from bare obtain x i where x: "x \<in> set (basicblocks callee)"
    and i: "i \<in> set (instructions (block_at callee x))" "isReturn i" "inputs i = []"
    by (auto simp: instructions_in_order_def)
  let ?xs = "instructions (block_at callee x)"
  have ne: "?xs \<noteq> []" using i(1) by auto
  have "i \<notin> set (butlast ?xs)" using acc(4) x i(2) by (auto simp: returns_last_def)
  moreover have "?xs = butlast ?xs @ [last ?xs]" using ne by simp
  ultimately have "i = last ?xs" using i(1) by (metis Un_iff empty_iff empty_set set_ConsD set_append)
  then have "ends_in_return callee x \<and> inputs (last ?xs) = []"
    using ne i(2,3) by (simp add: ends_in_return_eq)
  with merging(15) x obtain y where y: "y \<in> set (transplanted s)"
    "ends_in_return (caller s) y" "inputs (last (instructions (block_at (caller s) y))) = []"
    by blast
  have yp: "y \<in> set (predecessors (block_at (caller s) epilogue))"
    using merging(12) y(1,2) by (auto simp: ends_in_return_eq)
  have ye: "y \<noteq> epilogue" using y(2) merging(5) by (auto simp: ends_in_return_eq)
  let ?f = "caller s"
  let ?phi = "\<lparr>iid = fresh_iid ?f, opcode = kPhi, inputs = [], output_operand = OutVReg\<rparr>"
  let ?f1 = "allocateInstr ?f epilogue ?phi"
  have "mergeReturns epilogue (predecessors (block_at ?f1 epilogue)) ?f1 = Inl JitCheckFailed"
    using yp ye y(2,3) by (intro mergeReturns_bare_return [of y]) (simp_all add: ends_in_return_eq)
  then have "resolveReturnValue s = Inl JitCheckFailed"
    using merging(2,3,4) by (simp add: resolveReturnValue_def Let_def)
  then show ?thesis using merging(1) by simp
qed

theorem inlineCall_aborts_on_bare_return_witness:
  "getCallInstr (inliner_of call_no_args) = Some call_no_args
   \<and> findFunction (env_of ''f'' callee_bare_return) call_no_args
        (name_to_function (inliner_of call_no_args))
       = (Some callee_bare_return, (\<lambda>n. None)(''f'' \<mapsto> Some callee_bare_return))
   \<and> fst (isInlineable call_no_args callee_bare_return (arguments (inliner_of call_no_args)))
   \<and> consistent callee_bare_return
   \<and> (\<exists>i \<in> set (instructions_in_order callee_bare_return). isReturn i \<and> inputs i = [])
   \<and> inlineCall (env_of ''f'' callee_bare_return) (inliner_of call_no_args) = Inl JitCheckFailed"
proof -
  let ?st = "inliner_of call_no_args" and ?env = "env_of ''f'' callee_bare_return"
  have h1: "getCallInstr ?st = Some call_no_args" by (rule getCallInstr_inliner_of)
  have h2: "findFunction ?env call_no_args (name_to_function ?st)
       = (Some callee_bare_return, (\<lambda>n. None)(''f'' \<mapsto> Some callee_bare_return))"
    by (simp add: inliner_of_simps findFunction_env_of call_no_args_def mk_instr_def)
  have h3: "fst (isInlineable call_no_args callee_bare_return (arguments ?st))"
    by (simp add: inliner_of_simps inliner_defs example_defs)
  note h4 = consistent_bare_return
  have h5: "call_bb ?st \<in> set (basicblocks (caller ?st))" by (rule inliner_of_simps)
  have h6: "\<exists>i \<in> set (instructions_in_order callee_bare_return). isReturn i \<and> inputs i = []"
    by (simp add: instructions_in_order_def isReturn_def example_defs)
  have p2: "arguments ?st = [] \<and> (\<forall>x \<in> set (drop 1 (inputs call_no_args)). isImm x \<or> isLinked x)"
    by (simp add: inliner_of_simps call_no_args_def mk_instr_def)
  from inlineCall_aborts_on_bare_return [OF h1 h2 h3 h4 h5 h6] p2
  have "inlineCall ?env ?st = Inl JitCheckFailed" by blast
  with h1 h2 h3 h4 h6 show ?thesis by blast
qed


end
